theory Spec2Isabelle
  imports Main "HOL-Library.Word"
begin

unbundle bit_operations_syntax

section \<open>Data model of subnet.c\<close>

type_synonym u8 = "8 word"
type_synonym u16 = "16 word"

text \<open>
  A \<open>node_t *\<close> is an address; the node it points to is found in the heap
  \<open>nodes\<close> of the state. \<open>NULL\<close> is \<open>None\<close> of \<open>node_ptr option\<close>.
\<close>

type_synonym node_ptr = nat

datatype subnet_type = SUBNET_MAC | SUBNET_IPV4 | SUBNET_IPV6

text \<open>The enumeration constants, as the integers C gives them.\<close>

fun type_num :: "subnet_type \<Rightarrow> int" where
  "type_num SUBNET_MAC = 0"
| "type_num SUBNET_IPV4 = 1"
| "type_num SUBNET_IPV6 = 2"

text \<open>
  \<open>subnet_t\<close>. The members of the union \<open>net\<close> are separate fields: the code reads
  only the member that \<open>type\<close> selects. \<open>mac_t\<close> is 6 bytes, \<open>ipv4_t\<close> 4 bytes;
  \<open>ipv6_t\<close> (eight \<open>uint16_t\<close> kept in network byte order) is modelled by the 16
  bytes of its object representation, so that \<open>x[i] = htons(v)\<close> puts the high
  byte of \<open>v\<close> at \<open>2i\<close> and the low byte at \<open>2i + 1\<close> on every host.
  \<open>weight\<close> and the prefix lengths are C \<open>int\<close>s.
\<close>

record subnet =
  owner :: "node_ptr option"
  type :: subnet_type
  weight :: int
  mac_address :: "u8 list"
  ipv4_address :: "u8 list"
  ipv4_prefixlength :: int
  ipv6_address :: "u8 list"
  ipv6_prefixlength :: int

text \<open>The part of \<open>node_t\<close> that subnet.c uses.\<close>

record node =
  name :: string
  status_reachable :: bool
  n_subnet_tree :: "subnet list"

text \<open>A two-element array \<open>T a[2]\<close>, indexed by 0 and 1 only.\<close>

type_synonym 'a arr2 = "'a \<times> 'a"

fun arr2_get :: "'a arr2 \<Rightarrow> nat \<Rightarrow> 'a" where
  "arr2_get (a, b) i = (if i = 0 then a else b)"

fun arr2_set :: "'a arr2 \<Rightarrow> nat \<Rightarrow> 'a \<Rightarrow> 'a arr2" where
  "arr2_set (a, b) i v = (if i = 0 then (v, b) else (a, v))"

text \<open>
  The four statics of one address family's lookup cache:
  \<open>cache_ipv4_address\<close>, \<open>cache_ipv4_subnet\<close>, \<open>cache_ipv4_valid\<close>,
  \<open>cache_ipv4_slot\<close> (and the same for IPv6).
\<close>

record cache =
  cache_address :: "u8 list arr2"
  cache_subnet :: "subnet option arr2"
  cache_valid :: "bool arr2"
  cache_slot :: nat

text \<open>
  The state subnet.c works on: the node heap, the global \<open>subnet_tree\<close> (its
  entries in the order \<open>head\<close>, \<open>next\<close>, ... walks them) and the two caches.
\<close>

record state =
  nodes :: "node_ptr \<Rightarrow> node"
  subnet_tree :: "subnet list"
  cache_ipv4 :: cache
  cache_ipv6 :: cache

datatype fault = NullDeref

section \<open>Library functions\<close>

text \<open>
  \<open>memcmp(a, b, n)\<close> on two objects of \<open>n\<close> bytes each: the difference of the
  first pair of bytes that differ (as \<open>unsigned char\<close>), 0 when there is none.
\<close>

fun memcmp :: "u8 list \<Rightarrow> u8 list \<Rightarrow> nat \<Rightarrow> int" where
  "memcmp (a # as) (b # bs) n =
     (if n = 0 then 0
      else if a = b then memcmp as bs (n - 1) else uint a - uint b)"
| "memcmp _ _ _ = 0"

text \<open>
  \<open>strcmp\<close>: a string ends at its first NUL character or at the end of the list.
\<close>

fun strcmp :: "string \<Rightarrow> string \<Rightarrow> int" where
  "strcmp [] [] = 0"
| "strcmp [] (b # bs) = - int (of_char b)"
| "strcmp (a # as) [] = int (of_char a)"
| "strcmp (a # as) (b # bs) =
     (if a = b then (if a = CHR 0x00 then 0 else strcmp as bs)
      else int (of_char a) - int (of_char b))"

text \<open>
  Arithmetic on C \<open>int\<close>: the result is reduced to 32 bits, two's complement
  (the C standard leaves signed overflow undefined; this is what the usual
  targets compute).
\<close>

definition wrap_int :: "int \<Rightarrow> int" where
  "wrap_int v = (v + 2 ^ 31) mod 2 ^ 32 - 2 ^ 31"

definition int_sub :: "int \<Rightarrow> int \<Rightarrow> int" where
  "int_sub a b = wrap_int (a - b)"

section \<open>Collaborators outside subnet.c\<close>

text \<open>
  Modelled from the spec: \<open>maskcmp\<close> of netutl.c is missing. Section 4.4: the
  queried address lies within the candidate's network when the address masked
  to \<open>prefixlength\<close> equals the candidate's address masked to the same length.
  \<open>mask_addr\<close> keeps the first \<open>l\<close> bits and clears the others; \<open>maskcmp\<close> is
  0 exactly when the two masked addresses are equal.
\<close>

fun mask_addr :: "u8 list \<Rightarrow> nat \<Rightarrow> u8 list" where
  "mask_addr [] l = []"
| "mask_addr (b # bs) l =
     (if 8 \<le> l then b # mask_addr bs (l - 8)
      else (b AND NOT (mask (8 - l))) # mask_addr bs 0)"

definition maskcmp :: "u8 list \<Rightarrow> u8 list \<Rightarrow> int \<Rightarrow> int" where
  "maskcmp a b masklen = (if mask_addr a (nat masklen) = mask_addr b (nat masklen) then 0 else 1)"

text \<open>
  Modelled from the spec: splay_tree.c is missing. Sections 3 and 4.3: an
  ordered multiset under the comparison function; an insertion puts the entry
  at its place in the order and accepts an entry equal to an existing one; a
  search returns an entry that compares equal to the probe, or nothing; a
  deletion removes the matching entry and is a no-op when there is none.
\<close>

fun splay_insert :: "('a \<Rightarrow> 'a \<Rightarrow> int) \<Rightarrow> 'a \<Rightarrow> 'a list \<Rightarrow> 'a list" where
  "splay_insert cmp x [] = [x]"
| "splay_insert cmp x (e # es) =
     (if cmp x e < 0 then x # e # es else e # splay_insert cmp x es)"

fun splay_search :: "('a \<Rightarrow> 'a \<Rightarrow> int) \<Rightarrow> 'a \<Rightarrow> 'a list \<Rightarrow> 'a option" where
  "splay_search cmp x [] = None"
| "splay_search cmp x (e # es) = (if cmp x e = 0 then Some e else splay_search cmp x es)"

fun splay_delete :: "('a \<Rightarrow> 'a \<Rightarrow> int) \<Rightarrow> 'a \<Rightarrow> 'a list \<Rightarrow> 'a list" where
  "splay_delete cmp x [] = []"
| "splay_delete cmp x (e # es) = (if cmp x e = 0 then es else e # splay_delete cmp x es)"

section \<open>subnet.c\<close>

subsection \<open>Subnet lookup cache\<close>

definition cache_flush :: "cache \<Rightarrow> cache" where
  "cache_flush c = c\<lparr>cache_valid := (False, False)\<rparr>"

definition subnet_cache_flush :: "state \<Rightarrow> state" where
  "subnet_cache_flush st =
     st\<lparr>cache_ipv4 := cache_flush (cache_ipv4 st), cache_ipv6 := cache_flush (cache_ipv6 st)\<rparr>"

subsection \<open>Subnet comparison\<close>

text \<open>
  The tail the three comparison functions share: the weights, then, when both
  owners are present, their names.
\<close>

definition compare_weight_owner :: "(node_ptr \<Rightarrow> node) \<Rightarrow> subnet \<Rightarrow> subnet \<Rightarrow> int" where
  "compare_weight_owner ns a b =
     (let result = int_sub (weight a) (weight b) in
      if result \<noteq> 0 \<or> owner a = None \<or> owner b = None then result
      else strcmp (name (ns (the (owner a)))) (name (ns (the (owner b)))))"

definition subnet_compare_mac :: "(node_ptr \<Rightarrow> node) \<Rightarrow> subnet \<Rightarrow> subnet \<Rightarrow> int" where
  "subnet_compare_mac ns a b =
     (let result = memcmp (mac_address a) (mac_address b) 6 in
      if result \<noteq> 0 then result else compare_weight_owner ns a b)"

definition subnet_compare_ipv4 :: "(node_ptr \<Rightarrow> node) \<Rightarrow> subnet \<Rightarrow> subnet \<Rightarrow> int" where
  "subnet_compare_ipv4 ns a b =
     (let result = int_sub (ipv4_prefixlength b) (ipv4_prefixlength a) in
      if result \<noteq> 0 then result
      else let result = memcmp (ipv4_address a) (ipv4_address b) 4 in
      if result \<noteq> 0 then result else compare_weight_owner ns a b)"

definition subnet_compare_ipv6 :: "(node_ptr \<Rightarrow> node) \<Rightarrow> subnet \<Rightarrow> subnet \<Rightarrow> int" where
  "subnet_compare_ipv6 ns a b =
     (let result = int_sub (ipv6_prefixlength b) (ipv6_prefixlength a) in
      if result \<noteq> 0 then result
      else let result = memcmp (ipv6_address a) (ipv6_address b) 16 in
      if result \<noteq> 0 then result else compare_weight_owner ns a b)"

text \<open>
  \<open>subnet_compare\<close>. The \<open>default\<close> branch (unknown type, \<open>exit(0)\<close>) has no
  counterpart: \<open>subnet_type\<close> has the three values only.
\<close>

definition subnet_compare :: "(node_ptr \<Rightarrow> node) \<Rightarrow> subnet \<Rightarrow> subnet \<Rightarrow> int" where
  "subnet_compare ns a b =
     (let result = type_num (type a) - type_num (type b) in
      if result \<noteq> 0 then result
      else case type a of
        SUBNET_MAC \<Rightarrow> subnet_compare_mac ns a b
      | SUBNET_IPV4 \<Rightarrow> subnet_compare_ipv4 ns a b
      | SUBNET_IPV6 \<Rightarrow> subnet_compare_ipv6 ns a b)"

subsection \<open>Allocating, adding and removing subnets\<close>

text \<open>\<open>new_subnet\<close>: \<open>xmalloc_and_zero(sizeof(subnet_t))\<close>, every field zero.\<close>

definition new_subnet :: subnet where
  "new_subnet =
     \<lparr>owner = None, type = SUBNET_MAC, weight = 0,
      mac_address = [0, 0, 0, 0, 0, 0],
      ipv4_address = [0, 0, 0, 0], ipv4_prefixlength = 0,
      ipv6_address = [0, 0, 0, 0, 0, 0, 0, 0, 0, 0, 0, 0, 0, 0, 0, 0], ipv6_prefixlength = 0\<rparr>"

definition subnet_add :: "node_ptr \<Rightarrow> subnet \<Rightarrow> state \<Rightarrow> state" where
  "subnet_add n subnet st =
     (let subnet' = subnet\<lparr>owner := Some n\<rparr>;
          cmp = subnet_compare (nodes st);
          nd = nodes st n in
      subnet_cache_flush
        (st\<lparr>subnet_tree := splay_insert cmp subnet' (subnet_tree st),
            nodes := (nodes st)(n := nd\<lparr>n_subnet_tree := splay_insert cmp subnet' (n_subnet_tree nd)\<rparr>)\<rparr>))"

definition subnet_del :: "node_ptr \<Rightarrow> subnet \<Rightarrow> state \<Rightarrow> state" where
  "subnet_del n subnet st =
     (let cmp = subnet_compare (nodes st);
          nd = nodes st n in
      subnet_cache_flush
        (st\<lparr>nodes := (nodes st)(n := nd\<lparr>n_subnet_tree := splay_delete cmp subnet (n_subnet_tree nd)\<rparr>),
            subnet_tree := splay_delete cmp subnet (subnet_tree st)\<rparr>))"

subsection \<open>Subnet lookup routines\<close>

definition lookup_subnet :: "state \<Rightarrow> node_ptr \<Rightarrow> subnet \<Rightarrow> subnet option" where
  "lookup_subnet st owner_ptr subnet =
     splay_search (subnet_compare (nodes st)) subnet (n_subnet_tree (nodes st owner_ptr))"

definition lookup_subnet_mac :: "u8 list \<Rightarrow> state \<Rightarrow> subnet option" where
  "lookup_subnet_mac address st =
     (let subnet = new_subnet\<lparr>type := SUBNET_MAC, mac_address := address, owner := None\<rparr>
      in splay_search (subnet_compare (nodes st)) subnet (subnet_tree st))"

text \<open>
  The cache check of the two lookups: slot 0, then slot 1; a valid slot whose
  address equals the queried one gives its cached result.
\<close>

function cache_check :: "cache \<Rightarrow> u8 list \<Rightarrow> nat \<Rightarrow> nat \<Rightarrow> subnet option option" where
  "cache_check c address sz i =
     (if 2 \<le> i then None
      else if \<not> arr2_get (cache_valid c) i then cache_check c address sz (Suc i)
      else if memcmp address (arr2_get (cache_address c) i) sz = 0
        then Some (arr2_get (cache_subnet c) i)
      else cache_check c address sz (Suc i))"
  by pat_completeness auto
termination
  by (relation "measure (\<lambda>(c, address, sz, i). 2 - i)") auto

declare cache_check.simps [simp del]

text \<open>
  The scan of the two lookups, from the tree's head: \<open>r\<close> is overwritten by
  every entry of the family that contains the address, and the scan stops at
  the first such entry whose owner is reachable. \<open>p->owner->status.reachable\<close>
  with a null owner is the fault. (The check \<open>!p\<close> has no counterpart: a list
  element is never null.)
\<close>

fun scan :: "(node_ptr \<Rightarrow> node) \<Rightarrow> (subnet \<Rightarrow> bool) \<Rightarrow> subnet list \<Rightarrow> subnet option
    \<Rightarrow> fault + subnet option" where
  "scan ns contains [] r = Inr r"
| "scan ns contains (p # ps) r =
     (if \<not> contains p then scan ns contains ps r
      else case owner p of
        None \<Rightarrow> Inl NullDeref
      | Some n \<Rightarrow> if status_reachable (ns n) then Inr (Some p) else scan ns contains ps (Some p))"

definition contains_ipv4 :: "u8 list \<Rightarrow> subnet \<Rightarrow> bool" where
  "contains_ipv4 address p \<longleftrightarrow>
     type p = SUBNET_IPV4 \<and> maskcmp address (ipv4_address p) (ipv4_prefixlength p) = 0"

definition contains_ipv6 :: "u8 list \<Rightarrow> subnet \<Rightarrow> bool" where
  "contains_ipv6 address p \<longleftrightarrow>
     type p = SUBNET_IPV6 \<and> maskcmp address (ipv6_address p) (ipv6_prefixlength p) = 0"

text \<open>Cache the result: \<open>slot = !slot\<close>, then the three arrays at that slot.\<close>

definition cache_store :: "cache \<Rightarrow> u8 list \<Rightarrow> subnet option \<Rightarrow> cache" where
  "cache_store c address r =
     (let slot = (if cache_slot c = 0 then 1 else 0) in
      c\<lparr>cache_slot := slot,
        cache_address := arr2_set (cache_address c) slot address,
        cache_subnet := arr2_set (cache_subnet c) slot r,
        cache_valid := arr2_set (cache_valid c) slot True\<rparr>)"

definition lookup_subnet_ipv4 :: "u8 list \<Rightarrow> state \<Rightarrow> fault + (subnet option \<times> state)" where
  "lookup_subnet_ipv4 address st =
     (case cache_check (cache_ipv4 st) address 4 0 of
        Some cached \<Rightarrow> Inr (cached, st)
      | None \<Rightarrow>
          (case scan (nodes st) (contains_ipv4 address) (subnet_tree st) None of
             Inl f \<Rightarrow> Inl f
           | Inr r \<Rightarrow> Inr (r, st\<lparr>cache_ipv4 := cache_store (cache_ipv4 st) address r\<rparr>)))"

definition lookup_subnet_ipv6 :: "u8 list \<Rightarrow> state \<Rightarrow> fault + (subnet option \<times> state)" where
  "lookup_subnet_ipv6 address st =
     (case cache_check (cache_ipv6 st) address 16 0 of
        Some cached \<Rightarrow> Inr (cached, st)
      | None \<Rightarrow>
          (case scan (nodes st) (contains_ipv6 address) (subnet_tree st) None of
             Inl f \<Rightarrow> Inl f
           | Inr r \<Rightarrow> Inr (r, st\<lparr>cache_ipv6 := cache_store (cache_ipv6 st) address r\<rparr>)))"

section \<open>The C library's formatted input and output\<close>

text \<open>
  \<open>sscanf\<close> and \<open>snprintf\<close> for the directives subnet.c uses: \<open>%hu\<close>, \<open>%hx\<close>,
  \<open>%d\<close> and ordinary characters. Numbers are read as glibc reads them.
\<close>

definition isspace :: "char \<Rightarrow> bool" where
  "isspace c \<longleftrightarrow> c \<in> {CHR '' '', CHR 0x09, CHR 0x0A, CHR 0x0B, CHR 0x0C, CHR 0x0D}"

definition isdigit :: "char \<Rightarrow> bool" where
  "isdigit c \<longleftrightarrow> (48::nat) \<le> of_char c \<and> of_char c \<le> (57::nat)"

definition isxdigit :: "char \<Rightarrow> bool" where
  "isxdigit c \<longleftrightarrow> isdigit c \<or> (97::nat) \<le> of_char c \<and> of_char c \<le> (102::nat)
     \<or> (65::nat) \<le> of_char c \<and> of_char c \<le> (70::nat)"

text \<open>The value of a digit: \<open>0\<close>..\<open>9\<close>, \<open>A\<close>..\<open>F\<close>, \<open>a\<close>..\<open>f\<close>.\<close>

definition digit_val :: "char \<Rightarrow> nat" where
  "digit_val c =
     (let n = of_char c in if n \<le> 57 then n - 48 else if n \<le> 70 then n - 55 else n - 87)"

definition digit_char :: "nat \<Rightarrow> char" where
  "digit_char d = (if d < 10 then char_of (48 + d) else char_of (87 + d))"

definition is_digit_of :: "nat \<Rightarrow> char \<Rightarrow> bool" where
  "is_digit_of base c = (if base = 16 then isxdigit c else isdigit c)"

definition digits_value :: "nat \<Rightarrow> string \<Rightarrow> nat" where
  "digits_value base ds = foldl (\<lambda>acc c. acc * base + digit_val c) 0 ds"

definition scan_sign :: "string \<Rightarrow> bool \<times> string" where
  "scan_sign s =
     (case s of
        [] \<Rightarrow> (False, s)
      | c # r \<Rightarrow> if c = CHR ''-'' then (True, r) else if c = CHR ''+'' then (False, r) else (False, s))"

text \<open>
  The prefix \<open>0x\<close> of a hexadecimal number. glibc keeps the \<open>0\<close> as a digit and
  drops the \<open>x\<close>, so \<open>0x\<close> with no digit after it is the number 0.
\<close>

definition scan_0x :: "string \<Rightarrow> bool \<times> string" where
  "scan_0x s =
     (case s of
        c0 # cx # r \<Rightarrow>
          if c0 = CHR ''0'' \<and> (cx = CHR ''x'' \<or> cx = CHR ''X'') then (True, r) else (False, s)
      | _ \<Rightarrow> (False, s))"

text \<open>
  The input item of a numeric conversion: white space is skipped, then an
  optional sign, for base 16 an optional \<open>0x\<close>, then the digits. The result
  is the sign, the magnitude and the rest of the input; \<open>None\<close> is a matching
  failure (no digit).
\<close>

definition scan_number :: "nat \<Rightarrow> string \<Rightarrow> (bool \<times> nat \<times> string) option" where
  "scan_number base s =
     (let (neg, s2) = scan_sign (dropWhile isspace s);
          (pre, s3) = (if base = 16 then scan_0x s2 else (False, s2));
          ds = takeWhile (is_digit_of base) s3
      in if ds = [] \<and> \<not> pre then None
         else Some (neg, digits_value base ds, dropWhile (is_digit_of base) s3))"

datatype directive = Conv_hu | Conv_hx | Conv_d | Lit char

fun format_of :: "string \<Rightarrow> directive list" where
  "format_of [] = []"
| "format_of (c # s) =
     (if c = CHR ''%'' then
        (if take 2 s = ''hu'' then Conv_hu # format_of (drop 2 s)
         else if take 2 s = ''hx'' then Conv_hx # format_of (drop 2 s)
         else if take 1 s = ''d'' then Conv_d # format_of (drop 1 s)
         else [])
      else Lit c # format_of s)"

fun base_of :: "directive \<Rightarrow> nat" where
  "base_of Conv_hx = 16"
| "base_of _ = 10"

text \<open>
  The value a conversion assigns. \<open>%hu\<close> and \<open>%hx\<close>: \<open>strtoul\<close> (64 bits,
  \<open>ULONG_MAX\<close> on overflow, a minus sign negates) cut to \<open>unsigned short\<close>.
  \<open>%d\<close>: \<open>strtol\<close> (clamped to 64 bits) cut to \<open>int\<close>. (The C standard leaves
  a value that does not fit undefined.) Every value is given as an integer.
\<close>

fun convert :: "directive \<Rightarrow> bool \<Rightarrow> nat \<Rightarrow> int" where
  "convert Conv_d neg m =
     wrap_int (if neg then max (- (2 ^ 63)) (- int m) else min (2 ^ 63 - 1) (int m))"
| "convert _ neg m =
     (if 2 ^ 64 \<le> int m then 2 ^ 64 - 1 else if neg then (- int m) mod 2 ^ 64 else int m) mod 2 ^ 16"

text \<open>The values assigned, in order, until the first directive that fails.\<close>

fun sscanf_from :: "string \<Rightarrow> directive list \<Rightarrow> int list" where
  "sscanf_from s [] = []"
| "sscanf_from s (Lit c # fmt) =
     (case s of [] \<Rightarrow> [] | c' # s' \<Rightarrow> if c' = c then sscanf_from s' fmt else [])"
| "sscanf_from s (conv # fmt) =
     (case scan_number (base_of conv) s of
        None \<Rightarrow> []
      | Some (neg, m, s') \<Rightarrow> convert conv neg m # sscanf_from s' fmt)"

text \<open>
  \<open>sscanf\<close>: the number of values assigned, \<open>EOF\<close> (-1) when the input ends
  before the first conversion, and the values.
\<close>

definition sscanf :: "string \<Rightarrow> string \<Rightarrow> int \<times> int list" where
  "sscanf s fmt =
     (let vals = sscanf_from s (format_of fmt) in
      (if vals = [] \<and> dropWhile isspace s = [] then - 1 else int (length vals), vals))"

text \<open>The digits of a number, most significant first, no leading zero.\<close>

function digits_of :: "nat \<Rightarrow> nat \<Rightarrow> string" where
  "digits_of base n =
     (if n < base \<or> base < 2 then [digit_char n]
      else digits_of base (n div base) @ [digit_char (n mod base)])"
  by pat_completeness auto
termination
  by (relation "measure snd") auto

declare digits_of.simps [simp del]

fun render :: "directive \<Rightarrow> int \<Rightarrow> string" where
  "render Conv_hu a = digits_of 10 (nat (a mod 2 ^ 16))"
| "render Conv_hx a = digits_of 16 (nat (a mod 2 ^ 16))"
| "render Conv_d a = (if a < 0 then CHR ''-'' # digits_of 10 (nat (- a)) else digits_of 10 (nat a))"
| "render (Lit c) a = [c]"

fun sprintf :: "directive list \<Rightarrow> int list \<Rightarrow> string" where
  "sprintf [] args = []"
| "sprintf (Lit c # fmt) args = c # sprintf fmt args"
| "sprintf (conv # fmt) [] = []"
| "sprintf (conv # fmt) (a # args) = render conv a @ sprintf fmt args"

text \<open>
  \<open>snprintf\<close>: the text in the buffer after the call. At most \<open>len - 1\<close>
  characters reach the buffer, and with \<open>len\<close> 0 nothing is written. subnet.c
  passes an \<open>int\<close> for the size: a negative one converts to a \<open>size_t\<close> larger
  than any text, and the whole text is written.
\<close>

definition snprintf :: "string \<Rightarrow> int \<Rightarrow> string \<Rightarrow> int list \<Rightarrow> string" where
  "snprintf buffer len fmt args =
     (if len = 0 then buffer
      else if len < 0 then sprintf (format_of fmt) args
      else take (nat (len - 1)) (sprintf (format_of fmt) args))"

section \<open>subnet.c: ASCII representation of subnets\<close>

text \<open>
  The loop \<open>for(i = 0; i < 4; i++) { if(x[i] > 255) return false;
  subnet->net.ipv4.address.x[i] = x[i]; }\<close> on the remaining values \<open>x[i], ...\<close>.
\<close>

fun ipv4_octets :: "int list \<Rightarrow> nat \<Rightarrow> subnet \<Rightarrow> bool \<times> subnet" where
  "ipv4_octets [] i subnet = (True, subnet)"
| "ipv4_octets (v # vs) i subnet =
     (if v > 255 then (False, subnet)
      else ipv4_octets vs (Suc i)
             (subnet\<lparr>ipv4_address := (ipv4_address subnet)[i := of_int v]\<rparr>))"

text \<open>\<open>for(i = 0; i < 8; i++) subnet->net.ipv6.address.x[i] = htons(x[i]);\<close>\<close>

fun ipv6_hextets :: "int list \<Rightarrow> nat \<Rightarrow> subnet \<Rightarrow> subnet" where
  "ipv6_hextets [] i subnet = subnet"
| "ipv6_hextets (v # vs) i subnet =
     ipv6_hextets vs (Suc i)
       (subnet\<lparr>ipv6_address :=
          (ipv6_address subnet)[2 * i := of_int (v div 256), 2 * i + 1 := of_int v]\<rparr>)"

text \<open>
  \<open>for(i = 0; i < 6; i++) subnet->net.mac.address.x[i] = x[i];\<close> The assignment
  of a \<open>uint16_t\<close> to a \<open>uint8_t\<close> keeps the low 8 bits.
\<close>

fun mac_bytes :: "int list \<Rightarrow> nat \<Rightarrow> subnet \<Rightarrow> subnet" where
  "mac_bytes [] i subnet = subnet"
| "mac_bytes (v # vs) i subnet =
     mac_bytes vs (Suc i) (subnet\<lparr>mac_address := (mac_address subnet)[i := of_int v]\<rparr>)"

text \<open>
  \<open>str2net\<close>: the result and the target as the call leaves it. Each \<open>sscanf\<close>
  gives its count \<open>n\<close> and the values it assigned; a branch reads only values
  its own \<open>sscanf\<close> assigned (\<open>x[0..3]\<close>, \<open>l\<close>, and \<open>weight\<close> when it was
  assigned, else the initial 10).
\<close>

definition str2net :: "subnet \<Rightarrow> string \<Rightarrow> bool \<times> subnet" where
  "str2net subnet subnetstr =
     (let weight = 10;
          (n, a) = sscanf subnetstr ''%hu.%hu.%hu.%hu/%d#%d'' in
      if n \<ge> 5 then
        (let l = a ! 4; weight = (if n \<ge> 6 then a ! 5 else weight) in
         if l < 0 \<or> l > 32 then (False, subnet)
         else ipv4_octets (take 4 a) 0
                (subnet\<lparr>type := SUBNET_IPV4, ipv4_prefixlength := l, weight := weight\<rparr>))
      else
      let (n, a) = sscanf subnetstr ''%hx:%hx:%hx:%hx:%hx:%hx:%hx:%hx/%d#%d'' in
      if n \<ge> 9 then
        (let l = a ! 8; weight = (if n \<ge> 10 then a ! 9 else weight) in
         if l < 0 \<or> l > 128 then (False, subnet)
         else (True, ipv6_hextets (take 8 a) 0
                (subnet\<lparr>type := SUBNET_IPV6, ipv6_prefixlength := l, weight := weight\<rparr>)))
      else
      let (n, a) = sscanf subnetstr ''%hu.%hu.%hu.%hu#%d'' in
      if n \<ge> 4 then
        (let weight = (if n \<ge> 5 then a ! 4 else weight) in
         ipv4_octets (take 4 a) 0
           (subnet\<lparr>type := SUBNET_IPV4, ipv4_prefixlength := 32, weight := weight\<rparr>))
      else
      let (n, a) = sscanf subnetstr ''%hx:%hx:%hx:%hx:%hx:%hx:%hx:%hx#%d'' in
      if n \<ge> 8 then
        (let weight = (if n \<ge> 9 then a ! 8 else weight) in
         (True, ipv6_hextets (take 8 a) 0
           (subnet\<lparr>type := SUBNET_IPV6, ipv6_prefixlength := 128, weight := weight\<rparr>)))
      else
      let (n, a) = sscanf subnetstr ''%hx:%hx:%hx:%hx:%hx:%hx#%d'' in
      if n \<ge> 6 then
        (let weight = (if n \<ge> 7 then a ! 6 else weight) in
         (True, mac_bytes (take 6 a) 0 (subnet\<lparr>type := SUBNET_MAC, weight := weight\<rparr>)))
      else (False, subnet))"

text \<open>
  \<open>net2str\<close>: the result and the text in the buffer \<open>netstr\<close> as the call
  leaves it; \<open>None\<close> is a null pointer. (An unknown type, \<open>exit(0)\<close>, has no
  counterpart.) A \<open>uint8_t\<close> argument is promoted to \<open>int\<close>; \<open>ntohs(x[i])\<close> is
  256 times the byte at \<open>2i\<close> plus the byte at \<open>2i + 1\<close>.
\<close>

definition ntohs_at :: "u8 list \<Rightarrow> nat \<Rightarrow> int" where
  "ntohs_at a i = 256 * uint (a ! (2 * i)) + uint (a ! (2 * i + 1))"

definition net2str :: "string option \<Rightarrow> int \<Rightarrow> subnet option \<Rightarrow> bool \<times> string option" where
  "net2str netstr len subnet_ptr =
     (case (netstr, subnet_ptr) of
        (Some buffer, Some subnet) \<Rightarrow>
          (True, Some
            (case type subnet of
               SUBNET_MAC \<Rightarrow>
                 snprintf buffer len ''%hx:%hx:%hx:%hx:%hx:%hx#%d''
                   (map (\<lambda>i. uint (mac_address subnet ! i)) [0, 1, 2, 3, 4, 5] @ [weight subnet])
             | SUBNET_IPV4 \<Rightarrow>
                 snprintf buffer len ''%hu.%hu.%hu.%hu/%d#%d''
                   (map (\<lambda>i. uint (ipv4_address subnet ! i)) [0, 1, 2, 3]
                      @ [ipv4_prefixlength subnet, weight subnet])
             | SUBNET_IPV6 \<Rightarrow>
                 snprintf buffer len ''%hx:%hx:%hx:%hx:%hx:%hx:%hx:%hx/%d#%d''
                   (map (ntohs_at (ipv6_address subnet)) [0, 1, 2, 3, 4, 5, 6, 7]
                      @ [ipv6_prefixlength subnet, weight subnet])))
      | _ \<Rightarrow> (False, netstr))"

section \<open>Notions the properties are stated with\<close>

text \<open>
  What the C types guarantee of a \<open>subnet_t\<close>: the sizes of the three address
  arrays and the range of the \<open>int\<close> fields.
\<close>

definition wf_subnet :: "subnet \<Rightarrow> bool" where
  "wf_subnet s \<longleftrightarrow>
     length (mac_address s) = 6 \<and> length (ipv4_address s) = 4 \<and> length (ipv6_address s) = 16 \<and>
     - (2 ^ 31) \<le> weight s \<and> weight s < 2 ^ 31 \<and>
     - (2 ^ 31) \<le> ipv4_prefixlength s \<and> ipv4_prefixlength s < 2 ^ 31 \<and>
     - (2 ^ 31) \<le> ipv6_prefixlength s \<and> ipv6_prefixlength s < 2 ^ 31"

text \<open>A valid Route Entry (spec, section 3): the prefix length lies in the range of its kind.\<close>

definition valid_subnet :: "subnet \<Rightarrow> bool" where
  "valid_subnet s \<longleftrightarrow>
     wf_subnet s \<and>
     (case type s of
        SUBNET_MAC \<Rightarrow> True
      | SUBNET_IPV4 \<Rightarrow> 0 \<le> ipv4_prefixlength s \<and> ipv4_prefixlength s \<le> 32
      | SUBNET_IPV6 \<Rightarrow> 0 \<le> ipv6_prefixlength s \<and> ipv6_prefixlength s \<le> 128)"

text \<open>The tree's entries stand in the order of \<open>subnet_compare\<close>.\<close>

definition store_sorted :: "(node_ptr \<Rightarrow> node) \<Rightarrow> subnet list \<Rightarrow> bool" where
  "store_sorted ns tree = sorted_wrt (\<lambda>a b. subnet_compare ns a b \<le> 0) tree"

text \<open>The last entry, in the order of the scan, that contains the address.\<close>

definition last_containing :: "(subnet \<Rightarrow> bool) \<Rightarrow> subnet list \<Rightarrow> subnet option" where
  "last_containing contains ps =
     (case filter contains ps of [] \<Rightarrow> None | c # cs \<Rightarrow> Some (last (c # cs)))"

text \<open>
  A comparison function \<open>f\<close> (negative, zero, positive) orders the entries in
  \<open>D\<close>: \<open>a < b\<close> exactly when \<open>b > a\<close>, and \<open>\<le>\<close> is transitive.
\<close>

definition ordering_on :: "('a \<Rightarrow> bool) \<Rightarrow> ('a \<Rightarrow> 'a \<Rightarrow> int) \<Rightarrow> bool" where
  "ordering_on D f \<longleftrightarrow>
     (\<forall>a b. D a \<and> D b \<longrightarrow> (f a b < 0 \<longleftrightarrow> 0 < f b a)) \<and>
     (\<forall>a b c. D a \<and> D b \<and> D c \<and> f a b \<le> 0 \<and> f b c \<le> 0 \<longrightarrow> f a c \<le> 0)"

text \<open>
  The entries the ordering is stated for: valid, with an owner (as every stored
  entry has), and with a weight between \<open>-2^30\<close> and \<open>2^30\<close>, so that no
  difference of two weights leaves the range of \<open>int\<close>.
\<close>

definition ordered_entry :: "subnet \<Rightarrow> bool" where
  "ordered_entry s \<longleftrightarrow>
     valid_subnet s \<and> owner s \<noteq> None \<and> - (2 ^ 30) \<le> weight s \<and> weight s < 2 ^ 30"

definition of_kind :: "subnet_type \<Rightarrow> subnet \<Rightarrow> bool" where
  "of_kind k s \<longleftrightarrow> ordered_entry s \<and> type s = k"

text \<open>
  The order of the spec (section 4.2) within one kind: prefix length
  descending (IPv4, IPv6), then the address bytes, then the weight ascending,
  then the owner's name.
\<close>

definition spec_tail_less :: "(node_ptr \<Rightarrow> node) \<Rightarrow> subnet \<Rightarrow> subnet \<Rightarrow> bool" where
  "spec_tail_less ns a b \<longleftrightarrow>
     weight a < weight b \<or>
     (weight a = weight b \<and> strcmp (name (ns (the (owner a)))) (name (ns (the (owner b)))) < 0)"

definition spec_less :: "(node_ptr \<Rightarrow> node) \<Rightarrow> subnet \<Rightarrow> subnet \<Rightarrow> bool" where
  "spec_less ns a b \<longleftrightarrow>
     (case type a of
        SUBNET_MAC \<Rightarrow>
          memcmp (mac_address a) (mac_address b) 6 < 0 \<or>
          (memcmp (mac_address a) (mac_address b) 6 = 0 \<and> spec_tail_less ns a b)
      | SUBNET_IPV4 \<Rightarrow>
          ipv4_prefixlength b < ipv4_prefixlength a \<or>
          (ipv4_prefixlength a = ipv4_prefixlength b \<and>
            (memcmp (ipv4_address a) (ipv4_address b) 4 < 0 \<or>
             (memcmp (ipv4_address a) (ipv4_address b) 4 = 0 \<and> spec_tail_less ns a b)))
      | SUBNET_IPV6 \<Rightarrow>
          ipv6_prefixlength b < ipv6_prefixlength a \<or>
          (ipv6_prefixlength a = ipv6_prefixlength b \<and>
            (memcmp (ipv6_address a) (ipv6_address b) 16 < 0 \<or>
             (memcmp (ipv6_address a) (ipv6_address b) 16 = 0 \<and> spec_tail_less ns a b))))"

subsection \<open>The texts \<open>net2str\<close> writes\<close>

text \<open>A dotted quad, the prefix length and the weight: \<open>a.b.c.d/l#w\<close>.\<close>

definition text_ipv4 :: "u8 \<Rightarrow> u8 \<Rightarrow> u8 \<Rightarrow> u8 \<Rightarrow> int \<Rightarrow> int \<Rightarrow> string" where
  "text_ipv4 a b c d l w =
     digits_of 10 (unat a) @ CHR ''.'' # digits_of 10 (unat b) @ CHR ''.'' #
     digits_of 10 (unat c) @ CHR ''.'' # digits_of 10 (unat d) @ CHR ''/'' #
     render Conv_d l @ CHR ''#'' # render Conv_d w"

text \<open>Six hexadecimal numbers with colons between them, then \<open>r\<close>.\<close>

definition text_hex6 :: "nat \<Rightarrow> nat \<Rightarrow> nat \<Rightarrow> nat \<Rightarrow> nat \<Rightarrow> nat \<Rightarrow> string \<Rightarrow> string" where
  "text_hex6 n0 n1 n2 n3 n4 n5 r =
     digits_of 16 n0 @ CHR '':'' # digits_of 16 n1 @ CHR '':'' # digits_of 16 n2 @ CHR '':'' #
     digits_of 16 n3 @ CHR '':'' # digits_of 16 n4 @ CHR '':'' # digits_of 16 n5 @ r"

text \<open>Eight hexadecimal numbers with colons between them, then \<open>r\<close>.\<close>

definition text_hex8 :: "nat list \<Rightarrow> string \<Rightarrow> string" where
  "text_hex8 ns r =
     digits_of 16 (ns ! 0) @ CHR '':'' # digits_of 16 (ns ! 1) @ CHR '':'' #
     digits_of 16 (ns ! 2) @ CHR '':'' # digits_of 16 (ns ! 3) @ CHR '':'' #
     digits_of 16 (ns ! 4) @ CHR '':'' # digits_of 16 (ns ! 5) @ CHR '':'' #
     digits_of 16 (ns ! 6) @ CHR '':'' # digits_of 16 (ns ! 7) @ r"

text \<open>The 16-bit number whose high byte is \<open>hi\<close> and whose low byte is \<open>lo\<close>.\<close>

definition hextet_of :: "u8 \<Rightarrow> u8 \<Rightarrow> nat" where
  "hextet_of hi lo = nat (256 * uint hi + uint lo)"

subsection \<open>The texts \<open>str2net\<close> accepts\<close>

text \<open>The conversions of a format, and their number.\<close>

fun is_conv :: "directive \<Rightarrow> bool" where
  "is_conv (Lit c) = False"
| "is_conv _ = True"

definition nconv :: "directive list \<Rightarrow> nat" where
  "nconv fmt = length (filter is_conv fmt)"




text \<open>
  A number as a conversion accepts it: white space, an optional sign, in
  hexadecimal an optional \<open>0x\<close>, and digits (at least one, or the \<open>0x\<close>).
\<close>

definition number_token :: "nat \<Rightarrow> string \<Rightarrow> bool" where
  "number_token base w \<longleftrightarrow>
     (\<exists>ws sg px ds. w = ws @ sg @ px @ ds \<and> (\<forall>c\<in>set ws. isspace c) \<and>
        sg \<in> {[], ''-'', ''+''} \<and> (px = [] \<or> (base = 16 \<and> px \<in> {''0x'', ''0X''})) \<and>
        (\<forall>c\<in>set ds. is_digit_of base c) \<and> (ds \<noteq> [] \<or> px \<noteq> []))"

text \<open>A text is of the form \<open>fmt\<close>: numbers and the literal characters between them.\<close>

inductive matches :: "directive list \<Rightarrow> string \<Rightarrow> bool" where
  matches_Nil: "matches [] []"
| matches_Lit: "matches fmt w \<Longrightarrow> matches (Lit c # fmt) (c # w)"
| matches_Conv: "is_conv cv \<Longrightarrow> number_token (base_of cv) tok \<Longrightarrow> matches fmt w \<Longrightarrow>
     matches (cv # fmt) (tok @ w)"

definition begins_with :: "string \<Rightarrow> string \<Rightarrow> bool" where
  "begins_with fmt s \<longleftrightarrow> (\<exists>w r. s = w @ r \<and> matches (format_of fmt) w)"

subsection \<open>Example stores\<close>

text \<open>The statics of a cache at program start: all zero.\<close>

definition zero_cache :: "nat \<Rightarrow> cache" where
  "zero_cache sz =
     \<lparr>cache_address = (replicate sz 0, replicate sz 0), cache_subnet = (None, None),
      cache_valid = (False, False), cache_slot = 0\<rparr>"

text \<open>Three nodes: A at address 1 is reachable, B at 2 and C at 3 are not.\<close>

definition ex_nodes :: "node_ptr \<Rightarrow> node" where
  "ex_nodes p = \<lparr>name = (if p = 1 then ''A'' else if p = 2 then ''B'' else ''C''),
      status_reachable = (p = 1), n_subnet_tree = []\<rparr>"

definition ex_state :: state where
  "ex_state = \<lparr>nodes = ex_nodes, subnet_tree = [], cache_ipv4 = zero_cache 4, cache_ipv6 = zero_cache 16\<rparr>"

definition ipv4_net :: "u8 list \<Rightarrow> int \<Rightarrow> int \<Rightarrow> subnet" where
  "ipv4_net a l w = new_subnet\<lparr>type := SUBNET_IPV4, ipv4_address := a, ipv4_prefixlength := l, weight := w\<rparr>"

definition ipv6_net :: "u8 list \<Rightarrow> int \<Rightarrow> int \<Rightarrow> subnet" where
  "ipv6_net a l w = new_subnet\<lparr>type := SUBNET_IPV6, ipv6_address := a, ipv6_prefixlength := l, weight := w\<rparr>"

definition mac_net :: "u8 list \<Rightarrow> int \<Rightarrow> subnet" where
  "mac_net a w = new_subnet\<lparr>type := SUBNET_MAC, mac_address := a, weight := w\<rparr>"

abbreviation "ex_net24 \<equiv> ipv4_net [10, 0, 0, 0] 24 10"
abbreviation "ex_net16 \<equiv> ipv4_net [10, 0, 0, 0] 16 10"
abbreviation "ex_v6net16 \<equiv> ipv6_net [0xfd, 0, 0, 0, 0, 0, 0, 0, 0, 0, 0, 0, 0, 0, 0, 0] 16 10"
abbreviation "ex_v6net8 \<equiv> ipv6_net [0xfd, 0, 0, 0, 0, 0, 0, 0, 0, 0, 0, 0, 0, 0, 0, 0] 8 10"
abbreviation "ex_q4 \<equiv> [10, 0, 0, 5] :: u8 list"
abbreviation "ex_q6 \<equiv> [0xfd, 0, 0, 0, 0, 0, 0, 0, 0, 0, 0, 0, 0, 0, 0, 1] :: u8 list"

text \<open>
  10.0.0.0/24 of B (unreachable) and 10.0.0.0/16 of A (reachable); fd00::/16 of B
  and fd00::/8 of A.
\<close>

definition ex_reach :: state where
  "ex_reach =
     subnet_add 1 ex_v6net8 (subnet_add 2 ex_v6net16
       (subnet_add 1 ex_net16 (subnet_add 2 ex_net24 ex_state)))"

text \<open>The same networks, owned by B and C, both unreachable.\<close>

definition ex_unreach :: state where
  "ex_unreach =
     subnet_add 3 ex_v6net8 (subnet_add 2 ex_v6net16
       (subnet_add 3 ex_net16 (subnet_add 2 ex_net24 ex_state)))"

text \<open>One MAC entry, 0:1:2:3:4:5 with the weight 10 that \<open>str2net\<close> gives by default.\<close>

definition ex_mac :: state where
  "ex_mac = subnet_add 1 (mac_net [0, 1, 2, 3, 4, 5] 10) ex_state"

text \<open>The empty store after a lookup of 10.0.0.5, which caches "absent".\<close>

definition ex_cached :: state where
  "ex_cached = (case lookup_subnet_ipv4 ex_q4 ex_state of Inr (r, st) \<Rightarrow> st | Inl f \<Rightarrow> ex_state)"

text \<open>
  The node \<open>n\<close> becomes reachable or unreachable. The daemon changes
  \<open>status.reachable\<close> outside subnet.c, and no cache is flushed then.
\<close>

definition set_reachable :: "node_ptr \<Rightarrow> bool \<Rightarrow> state \<Rightarrow> state" where
  "set_reachable n b st = st\<lparr>nodes := (nodes st)(n := (nodes st n)\<lparr>status_reachable := b\<rparr>)\<rparr>"

text \<open>
  The store \<open>ex_reach\<close> after a lookup of 10.0.0.5 (the /16 of A is cached),
  and after a lookup of fe00::1 (absent is cached).
\<close>

abbreviation "ex_q6_none \<equiv> [0xfe, 0, 0, 0, 0, 0, 0, 0, 0, 0, 0, 0, 0, 0, 0, 1] :: u8 list"

definition ex_looked4 :: state where
  "ex_looked4 =
     ex_reach\<lparr>cache_ipv4 := cache_store (cache_ipv4 ex_reach) ex_q4 (Some (ex_net16\<lparr>owner := Some 1\<rparr>))\<rparr>"

definition ex_looked6 :: state where
  "ex_looked6 = ex_reach\<lparr>cache_ipv6 := cache_store (cache_ipv6 ex_reach) ex_q6_none None\<rparr>"

section \<open>The store and the lookups\<close>

lemma memcmp_refl: "memcmp a a n = 0"
proof (induction a arbitrary: n)
  case Nil
  then show ?case by simp
next
  case (Cons x xs)
  then show ?case by simp
qed

lemma cache_check_unroll:
  "cache_check c a sz 0 =
     (if fst (cache_valid c) \<and> memcmp a (fst (cache_address c)) sz = 0 then Some (fst (cache_subnet c))
      else if snd (cache_valid c) \<and> memcmp a (snd (cache_address c)) sz = 0 then Some (snd (cache_subnet c))
      else None)"
  by (cases "cache_valid c"; cases "cache_address c"; cases "cache_subnet c")
     (simp add: cache_check.simps)

lemma cache_check_flush: "cache_check (cache_flush c) a sz 0 = None"
  by (simp add: cache_check_unroll cache_flush_def)

lemma cache_check_store:
  "cache_check c a sz 0 = None \<Longrightarrow> cache_check (cache_store c a r) a sz 0 = Some r"
  by (cases "cache_valid c"; cases "cache_address c"; cases "cache_subnet c")
     (auto simp: cache_check_unroll cache_store_def memcmp_refl split: if_splits)

lemma scan_unreachable:
  "\<forall>p\<in>set ps. contains p \<longrightarrow> (\<exists>n. owner p = Some n \<and> \<not> status_reachable (ns n)) \<Longrightarrow>
   scan ns contains ps r = Inr (case filter contains ps of [] \<Rightarrow> r | c # cs \<Rightarrow> Some (last (c # cs)))"
proof (induction ps arbitrary: r)
  case Nil
  then show ?case by simp
next
  case (Cons p ps)
  then show ?case by (auto split: list.splits)
qed

lemma scan_first_reachable:
  "\<forall>q\<in>set pre. contains q \<longrightarrow> (\<exists>n. owner q = Some n \<and> \<not> status_reachable (ns n)) \<Longrightarrow>
   contains p \<Longrightarrow> owner p = Some n \<Longrightarrow> status_reachable (ns n) \<Longrightarrow>
   scan ns contains (pre @ p # post) r = Inr (Some p)"
  by (induction pre arbitrary: r) auto

lemmas ex_defs = subnet_add_def ex_state_def ipv4_net_def ipv6_net_def mac_net_def new_subnet_def subnet_cache_flush_def
    subnet_compare_def subnet_compare_ipv4_def subnet_compare_ipv6_def subnet_compare_mac_def int_sub_def wrap_int_def Let_def
     cache_flush_def zero_cache_def contains_ipv4_def contains_ipv6_def maskcmp_def ex_nodes_def cache_store_def mask_eq_exp_minus_1
     compare_weight_owner_def

lemma ex_reach_tree:
  "subnet_tree ex_reach =
    [ex_net24\<lparr>owner := Some 2\<rparr>, ex_net16\<lparr>owner := Some 1\<rparr>,
     ex_v6net16\<lparr>owner := Some 2\<rparr>,
     ex_v6net8\<lparr>owner := Some 1\<rparr>]"
  by (simp add: ex_reach_def ex_defs)

lemma ex_unreach_tree:
  "subnet_tree ex_unreach =
    [ex_net24\<lparr>owner := Some 2\<rparr>, ex_net16\<lparr>owner := Some 3\<rparr>,
     ex_v6net16\<lparr>owner := Some 2\<rparr>,
     ex_v6net8\<lparr>owner := Some 3\<rparr>]"
  by (simp add: ex_unreach_def ex_defs)

lemma ex_nodes_of: "nodes ex_reach n = (ex_nodes n)\<lparr>n_subnet_tree := n_subnet_tree (nodes ex_reach n)\<rparr>"
  "nodes ex_unreach n = (ex_nodes n)\<lparr>n_subnet_tree := n_subnet_tree (nodes ex_unreach n)\<rparr>"
  by (simp_all add: ex_reach_def ex_unreach_def subnet_add_def Let_def subnet_cache_flush_def ex_state_def)

lemma ex_caches: "cache_valid (cache_ipv4 ex_reach) = (False, False)" "cache_valid (cache_ipv6 ex_reach) = (False, False)"
   "cache_valid (cache_ipv4 ex_unreach) = (False, False)" "cache_valid (cache_ipv6 ex_unreach) = (False, False)"
  by (simp_all add: ex_reach_def ex_unreach_def subnet_add_def Let_def subnet_cache_flush_def cache_flush_def)

lemma flushed_add: "cache_valid (cache_ipv4 (subnet_add n s st)) = (False, False)"
  "cache_valid (cache_ipv6 (subnet_add n s st)) = (False, False)"
  by (simp_all add: subnet_add_def Let_def subnet_cache_flush_def cache_flush_def)

lemma flushed_del: "cache_valid (cache_ipv4 (subnet_del n s st)) = (False, False)"
  "cache_valid (cache_ipv6 (subnet_del n s st)) = (False, False)"
  by (simp_all add: subnet_del_def Let_def subnet_cache_flush_def cache_flush_def)

lemma lookup4_flushed:
  "cache_valid (cache_ipv4 st) = (False, False) \<Longrightarrow>
   map_sum id fst (lookup_subnet_ipv4 a st) = scan (nodes st) (contains_ipv4 a) (subnet_tree st) None"
  by (auto simp: lookup_subnet_ipv4_def cache_check_unroll split: sum.splits)

lemma lookup6_flushed:
  "cache_valid (cache_ipv6 st) = (False, False) \<Longrightarrow>
   map_sum id fst (lookup_subnet_ipv6 a st) = scan (nodes st) (contains_ipv6 a) (subnet_tree st) None"
  by (auto simp: lookup_subnet_ipv6_def cache_check_unroll split: sum.splits)

text \<open>
  Claim C8. After an insert or a remove both caches are invalid, and the next
  IPv4 or IPv6 lookup, for any address and whatever the caches held before,
  returns what a scan of the mutated store from its head returns.
\<close>

theorem mutation_flushes_caches:
  assumes "st' = subnet_add n s st \<or> st' = subnet_del n s st"
  shows "cache_valid (cache_ipv4 st') = (False, False) \<and>
         cache_valid (cache_ipv6 st') = (False, False) \<and>
         map_sum id fst (lookup_subnet_ipv4 a4 st') =
           scan (nodes st') (contains_ipv4 a4) (subnet_tree st') None \<and>
         map_sum id fst (lookup_subnet_ipv6 a6 st') =
           scan (nodes st') (contains_ipv6 a6) (subnet_tree st') None"
proof -
  from assms have v: "cache_valid (cache_ipv4 st') = (False, False)"
      "cache_valid (cache_ipv6 st') = (False, False)"
    by (auto simp: flushed_add flushed_del)
  show ?thesis
    using v lookup4_flushed [OF v(1)] lookup6_flushed [OF v(2)] by simp
qed

lemma ex_cached_eq:
  "ex_cached = ex_state\<lparr>cache_ipv4 := cache_store (zero_cache 4) ex_q4 None\<rparr>"
  by (simp add: ex_cached_def lookup_subnet_ipv4_def cache_check_unroll ex_state_def zero_cache_def)

text \<open>
  Instance of C8: 10.0.0.5 is cached as absent in the empty store; after the
  insertion of 10.0.0.0/8 the lookup finds the new entry, and after its removal
  the lookup is absent again.
\<close>

theorem mutation_flushes_caches_witness:
  "map_sum id fst (lookup_subnet_ipv4 ex_q4 ex_cached) = Inr None \<and>
   cache_valid (cache_ipv4 ex_cached) = (False, True) \<and>
   map_sum id fst (lookup_subnet_ipv4 ex_q4 (subnet_add 1 (ipv4_net [10, 0, 0, 0] 8 10) ex_cached))
     = Inr (Some ((ipv4_net [10, 0, 0, 0] 8 10)\<lparr>owner := Some 1\<rparr>)) \<and>
   map_sum id fst (lookup_subnet_ipv4 ex_q4
       (subnet_del 1 (ipv4_net [10, 0, 0, 0] 8 10) (subnet_add 1 (ipv4_net [10, 0, 0, 0] 8 10) ex_cached)))
     = Inr None"
proof -
  have a: "map_sum id fst (lookup_subnet_ipv4 ex_q4 ex_cached) = Inr None"
    "cache_valid (cache_ipv4 ex_cached) = (False, True)"
    by (simp_all add: ex_cached_eq lookup_subnet_ipv4_def cache_check_unroll ex_state_def
        zero_cache_def cache_store_def)
  have t: "subnet_tree (subnet_add 1 (ipv4_net [10, 0, 0, 0] 8 10) ex_cached)
      = [(ipv4_net [10, 0, 0, 0] 8 10)\<lparr>owner := Some 1\<rparr>]"
    "nodes (subnet_add 1 (ipv4_net [10, 0, 0, 0] 8 10) ex_cached) 1 = 
       (ex_nodes 1)\<lparr>n_subnet_tree := [(ipv4_net [10, 0, 0, 0] 8 10)\<lparr>owner := Some 1\<rparr>]\<rparr>"
    by (simp_all add: ex_cached_eq ex_defs)
  have b: "map_sum id fst (lookup_subnet_ipv4 ex_q4 (subnet_add 1 (ipv4_net [10, 0, 0, 0] 8 10) ex_cached))
     = Inr (Some ((ipv4_net [10, 0, 0, 0] 8 10)\<lparr>owner := Some 1\<rparr>))"
    using mutation_flushes_caches [of "subnet_add 1 (ipv4_net [10, 0, 0, 0] 8 10) ex_cached" 1
        "ipv4_net [10, 0, 0, 0] 8 10" ex_cached "ex_q4"] t
    by (simp add: ex_defs)
  have t2: "subnet_tree (subnet_del 1 (ipv4_net [10, 0, 0, 0] 8 10) (subnet_add 1 (ipv4_net [10, 0, 0, 0] 8 10) ex_cached))
      = []"
    by (simp add: subnet_del_def Let_def subnet_cache_flush_def t)
       (simp add: ex_cached_eq ex_defs)
  have c: "map_sum id fst (lookup_subnet_ipv4 ex_q4
       (subnet_del 1 (ipv4_net [10, 0, 0, 0] 8 10) (subnet_add 1 (ipv4_net [10, 0, 0, 0] 8 10) ex_cached)))
     = Inr None"
    using mutation_flushes_caches [of "subnet_del 1 (ipv4_net [10, 0, 0, 0] 8 10) (subnet_add 1 (ipv4_net [10, 0, 0, 0] 8 10) ex_cached)" 1
        "ipv4_net [10, 0, 0, 0] 8 10" "subnet_add 1 (ipv4_net [10, 0, 0, 0] 8 10) ex_cached" "ex_q4"] t2
    by simp
  show ?thesis using a b c by simp
qed

lemma lookup4_stable:
  assumes "lookup_subnet_ipv4 a st = Inr (r, st1)"
  shows "lookup_subnet_ipv4 a st1 = Inr (r, st1) \<and> subnet_tree st1 = subnet_tree st \<and> nodes st1 = nodes st"
proof (cases "cache_check (cache_ipv4 st) a 4 0")
  case None
  with assms obtain r' where s: "scan (nodes st) (contains_ipv4 a) (subnet_tree st) None = Inr r'"
    by (auto simp: lookup_subnet_ipv4_def split: sum.splits)
  with assms None have e: "r = r'" "st1 = st\<lparr>cache_ipv4 := cache_store (cache_ipv4 st) a r\<rparr>"
    by (auto simp: lookup_subnet_ipv4_def)
  from cache_check_store [OF None, of r] e show ?thesis
    by (simp add: lookup_subnet_ipv4_def)
next
  case (Some c)
  with assms show ?thesis by (auto simp: lookup_subnet_ipv4_def)
qed

lemma lookup6_stable:
  assumes "lookup_subnet_ipv6 a st = Inr (r, st1)"
  shows "lookup_subnet_ipv6 a st1 = Inr (r, st1) \<and> subnet_tree st1 = subnet_tree st \<and> nodes st1 = nodes st"
proof (cases "cache_check (cache_ipv6 st) a 16 0")
  case None
  with assms obtain r' where s: "scan (nodes st) (contains_ipv6 a) (subnet_tree st) None = Inr r'"
    by (auto simp: lookup_subnet_ipv6_def split: sum.splits)
  with assms None have e: "r = r'" "st1 = st\<lparr>cache_ipv6 := cache_store (cache_ipv6 st) a r\<rparr>"
    by (auto simp: lookup_subnet_ipv6_def)
  from cache_check_store [OF None, of r] e show ?thesis
    by (simp add: lookup_subnet_ipv6_def)
next
  case (Some c)
  with assms show ?thesis by (auto simp: lookup_subnet_ipv6_def)
qed

lemma lookup4_hit:
  assumes "lookup_subnet_ipv4 a st = Inr (r, st1)"
  shows "cache_check (cache_ipv4 st1) a 4 0 = Some r"
proof (cases "cache_check (cache_ipv4 st) a 4 0")
  case None
  with assms obtain r' where s: "scan (nodes st) (contains_ipv4 a) (subnet_tree st) None = Inr r'"
    by (auto simp: lookup_subnet_ipv4_def split: sum.splits)
  with assms None have e: "r = r'" "st1 = st\<lparr>cache_ipv4 := cache_store (cache_ipv4 st) a r\<rparr>"
    by (auto simp: lookup_subnet_ipv4_def)
  from cache_check_store [OF None, of r] e show ?thesis by simp
next
  case (Some c)
  with assms show ?thesis by (auto simp: lookup_subnet_ipv4_def)
qed

lemma lookup6_hit:
  assumes "lookup_subnet_ipv6 a st = Inr (r, st1)"
  shows "cache_check (cache_ipv6 st1) a 16 0 = Some r"
proof (cases "cache_check (cache_ipv6 st) a 16 0")
  case None
  with assms obtain r' where s: "scan (nodes st) (contains_ipv6 a) (subnet_tree st) None = Inr r'"
    by (auto simp: lookup_subnet_ipv6_def split: sum.splits)
  with assms None have e: "r = r'" "st1 = st\<lparr>cache_ipv6 := cache_store (cache_ipv6 st) a r\<rparr>"
    by (auto simp: lookup_subnet_ipv6_def)
  from cache_check_store [OF None, of r] e show ?thesis by simp
next
  case (Some c)
  with assms show ?thesis by (auto simp: lookup_subnet_ipv6_def)
qed

lemma lookup4_cached:
  "cache_check (cache_ipv4 st) a 4 0 = Some r \<Longrightarrow> lookup_subnet_ipv4 a st = Inr (r, st)"
  by (simp add: lookup_subnet_ipv4_def)

lemma lookup6_cached:
  "cache_check (cache_ipv6 st) a 16 0 = Some r \<Longrightarrow> lookup_subnet_ipv6 a st = Inr (r, st)"
  by (simp add: lookup_subnet_ipv6_def)

text \<open>
  Claim C9. A lookup that returns \<open>r\<close> and leaves the state \<open>st'\<close> has not
  altered the store (the tree and the nodes of \<open>st'\<close> are those of the state
  before), and it leaves \<open>r\<close> in the cache: the cache check of \<open>st'\<close> for the
  address gives \<open>r\<close>, also when \<open>r\<close> is absent. Repeated in \<open>st'\<close> the
  lookup returns \<open>r\<close> again and changes nothing. The second answer is the
  cache's and not a new scan's: the lookup returns \<open>r\<close> in every state that
  has the cache of \<open>st'\<close>, whatever its tree and its nodes are.
\<close>

theorem repeated_lookup_same_result:
  "(lookup_subnet_ipv4 a4 st = Inr (r4, st4) \<longrightarrow>
      subnet_tree st4 = subnet_tree st \<and> nodes st4 = nodes st \<and>
      cache_check (cache_ipv4 st4) a4 4 0 = Some r4 \<and>
      lookup_subnet_ipv4 a4 st4 = Inr (r4, st4) \<and>
      (cache_ipv4 st4' = cache_ipv4 st4 \<longrightarrow> lookup_subnet_ipv4 a4 st4' = Inr (r4, st4'))) \<and>
   (lookup_subnet_ipv6 a6 st = Inr (r6, st6) \<longrightarrow>
      subnet_tree st6 = subnet_tree st \<and> nodes st6 = nodes st \<and>
      cache_check (cache_ipv6 st6) a6 16 0 = Some r6 \<and>
      lookup_subnet_ipv6 a6 st6 = Inr (r6, st6) \<and>
      (cache_ipv6 st6' = cache_ipv6 st6 \<longrightarrow> lookup_subnet_ipv6 a6 st6' = Inr (r6, st6')))"
proof (intro conjI impI)
  assume l: "lookup_subnet_ipv4 a4 st = Inr (r4, st4)"
  from lookup4_stable [OF l] show "subnet_tree st4 = subnet_tree st" "nodes st4 = nodes st"
    "lookup_subnet_ipv4 a4 st4 = Inr (r4, st4)" by simp_all
  from lookup4_hit [OF l] show h: "cache_check (cache_ipv4 st4) a4 4 0 = Some r4" .
  assume "cache_ipv4 st4' = cache_ipv4 st4"
  with h show "lookup_subnet_ipv4 a4 st4' = Inr (r4, st4')" by (simp add: lookup4_cached)
next
  assume l: "lookup_subnet_ipv6 a6 st = Inr (r6, st6)"
  from lookup6_stable [OF l] show "subnet_tree st6 = subnet_tree st" "nodes st6 = nodes st"
    "lookup_subnet_ipv6 a6 st6 = Inr (r6, st6)" by simp_all
  from lookup6_hit [OF l] show h: "cache_check (cache_ipv6 st6) a6 16 0 = Some r6" .
  assume "cache_ipv6 st6' = cache_ipv6 st6"
  with h show "lookup_subnet_ipv6 a6 st6' = Inr (r6, st6')" by (simp add: lookup6_cached)
qed

lemma wrap_int_id: "- (2 ^ 31) \<le> v \<Longrightarrow> v < 2 ^ 31 \<Longrightarrow> wrap_int v = v"
  by (simp add: wrap_int_def)

lemma sorted_wrt_last:
  "sorted_wrt R ys \<Longrightarrow> y \<in> set ys \<Longrightarrow> y = last ys \<or> R y (last ys)"
  by (induction ys) auto

lemma last_of_sorted:
  assumes "sorted_wrt R xs" and "filter P xs = c # cs" and "p \<in> set (c # cs)"
  shows "p = last (c # cs) \<or> R p (last (c # cs))"
proof -
  have "sorted_wrt R (filter P xs)"
    using assms(1) by (rule sorted_wrt_filter)
  then have "sorted_wrt R (c # cs)"
    by (simp only: assms(2))
  then show ?thesis
    using assms(3) by (rule sorted_wrt_last)
qed

lemma compare_ipv4_prefix:
  assumes "subnet_compare ns p e \<le> 0" "type p = SUBNET_IPV4" "type e = SUBNET_IPV4"
    "valid_subnet p" "valid_subnet e"
  shows "ipv4_prefixlength e \<le> ipv4_prefixlength p"
proof -
  have r: "int_sub (ipv4_prefixlength e) (ipv4_prefixlength p) = ipv4_prefixlength e - ipv4_prefixlength p"
    using assms(2-5) by (simp add: int_sub_def valid_subnet_def wrap_int_id)
  from assms(1-3) have "subnet_compare_ipv4 ns p e \<le> 0"
    by (simp add: subnet_compare_def)
  then show ?thesis
    by (cases "ipv4_prefixlength e = ipv4_prefixlength p") (simp_all add: subnet_compare_ipv4_def r Let_def)
qed

lemma compare_ipv6_prefix:
  assumes "subnet_compare ns p e \<le> 0" "type p = SUBNET_IPV6" "type e = SUBNET_IPV6"
    "valid_subnet p" "valid_subnet e"
  shows "ipv6_prefixlength e \<le> ipv6_prefixlength p"
proof -
  have r: "int_sub (ipv6_prefixlength e) (ipv6_prefixlength p) = ipv6_prefixlength e - ipv6_prefixlength p"
    using assms(2-5) by (simp add: int_sub_def valid_subnet_def wrap_int_id)
  from assms(1-3) have "subnet_compare_ipv6 ns p e \<le> 0"
    by (simp add: subnet_compare_def)
  then show ?thesis
    by (cases "ipv6_prefixlength e = ipv6_prefixlength p") (simp_all add: subnet_compare_ipv6_def r Let_def)
qed

lemma last_containing_Some:
  assumes "last_containing P xs = Some e"
  shows "\<exists>c cs. filter P xs = c # cs \<and> e = last (c # cs)"
proof (cases "filter P xs")
  case Nil
  with assms show ?thesis by (simp add: last_containing_def)
next
  case (Cons c cs)
  then have "last_containing P xs = Some (last (c # cs))"
    by (simp add: last_containing_def)
  with assms have "e = last (c # cs)" by simp
  with Cons show ?thesis by blast
qed

lemma last_containing_shortest4:
  assumes "store_sorted ns tree" "\<forall>p\<in>set tree. valid_subnet p"
    "last_containing (contains_ipv4 a) tree = Some e" "p \<in> set tree" "contains_ipv4 a p"
  shows "ipv4_prefixlength e \<le> ipv4_prefixlength p"
proof -
  from last_containing_Some [OF assms(3)] obtain c cs
    where f: "filter (contains_ipv4 a) tree = c # cs" and e: "e = last (c # cs)" by blast
  have pin: "p \<in> set (c # cs)" using assms(4,5) f [symmetric] by simp
  have ein: "e \<in> set (filter (contains_ipv4 a) tree)"
    unfolding f e by (rule last_in_set) simp
  from last_of_sorted [OF assms(1) [unfolded store_sorted_def] f pin]
  have "p = e \<or> subnet_compare ns p e \<le> 0" using e by simp
  then show ?thesis
  proof
    assume "p = e" then show ?thesis by simp
  next
    assume "subnet_compare ns p e \<le> 0"
    then show ?thesis
      using compare_ipv4_prefix [of ns p e] assms(2,4,5) ein
      by (simp add: contains_ipv4_def)
  qed
qed

lemma last_containing_shortest6:
  assumes "store_sorted ns tree" "\<forall>p\<in>set tree. valid_subnet p"
    "last_containing (contains_ipv6 a) tree = Some e" "p \<in> set tree" "contains_ipv6 a p"
  shows "ipv6_prefixlength e \<le> ipv6_prefixlength p"
proof -
  from last_containing_Some [OF assms(3)] obtain c cs
    where f: "filter (contains_ipv6 a) tree = c # cs" and e: "e = last (c # cs)" by blast
  have pin: "p \<in> set (c # cs)" using assms(4,5) f [symmetric] by simp
  have ein: "e \<in> set (filter (contains_ipv6 a) tree)"
    unfolding f e by (rule last_in_set) simp
  from last_of_sorted [OF assms(1) [unfolded store_sorted_def] f pin]
  have "p = e \<or> subnet_compare ns p e \<le> 0" using e by simp
  then show ?thesis
  proof
    assume "p = e" then show ?thesis by simp
  next
    assume "subnet_compare ns p e \<le> 0"
    then show ?thesis
      using compare_ipv6_prefix [of ns p e] assms(2,4,5) ein
      by (simp add: contains_ipv6_def)
  qed
qed

lemma scan_last_containing:
  "\<forall>p\<in>set ps. contains p \<longrightarrow> (\<exists>n. owner p = Some n \<and> \<not> status_reachable (ns n)) \<Longrightarrow>
   scan ns contains ps None = Inr (last_containing contains ps)"
  by (simp add: scan_unreachable last_containing_def split: list.splits)

text \<open>
  Claim C1, as the code has it. When the cache misses and no entry containing
  the address has a reachable owner, the lookup returns the last containing
  entry in the order of the scan, absent when there is none. In a tree ordered
  by \<open>subnet_compare\<close> no containing entry has a shorter prefix than that one:
  it is the least specific containing entry, not the longest-prefix one.
\<close>

theorem unreachable_scan_returns_last:
  "(cache_check (cache_ipv4 st) a4 4 0 = None \<and>
    (\<forall>p\<in>set (subnet_tree st). contains_ipv4 a4 p \<longrightarrow>
        (\<exists>n. owner p = Some n \<and> \<not> status_reachable (nodes st n))) \<longrightarrow>
      lookup_subnet_ipv4 a4 st =
        Inr (last_containing (contains_ipv4 a4) (subnet_tree st),
             st\<lparr>cache_ipv4 := cache_store (cache_ipv4 st) a4
                  (last_containing (contains_ipv4 a4) (subnet_tree st))\<rparr>)) \<and>
   (cache_check (cache_ipv6 st) a6 16 0 = None \<and>
    (\<forall>p\<in>set (subnet_tree st). contains_ipv6 a6 p \<longrightarrow>
        (\<exists>n. owner p = Some n \<and> \<not> status_reachable (nodes st n))) \<longrightarrow>
      lookup_subnet_ipv6 a6 st =
        Inr (last_containing (contains_ipv6 a6) (subnet_tree st),
             st\<lparr>cache_ipv6 := cache_store (cache_ipv6 st) a6
                  (last_containing (contains_ipv6 a6) (subnet_tree st))\<rparr>)) \<and>
   (store_sorted (nodes st) (subnet_tree st) \<and> (\<forall>p\<in>set (subnet_tree st). valid_subnet p) \<longrightarrow>
      (\<forall>p\<in>set (subnet_tree st). \<forall>e.
         (contains_ipv4 a4 p \<and> last_containing (contains_ipv4 a4) (subnet_tree st) = Some e
            \<longrightarrow> ipv4_prefixlength e \<le> ipv4_prefixlength p) \<and>
         (contains_ipv6 a6 p \<and> last_containing (contains_ipv6 a6) (subnet_tree st) = Some e
            \<longrightarrow> ipv6_prefixlength e \<le> ipv6_prefixlength p)))"
proof (intro conjI impI ballI allI)
  assume "cache_check (cache_ipv4 st) a4 4 0 = None \<and>
    (\<forall>p\<in>set (subnet_tree st). contains_ipv4 a4 p \<longrightarrow>
        (\<exists>n. owner p = Some n \<and> \<not> status_reachable (nodes st n)))"
  then show "lookup_subnet_ipv4 a4 st =
        Inr (last_containing (contains_ipv4 a4) (subnet_tree st),
             st\<lparr>cache_ipv4 := cache_store (cache_ipv4 st) a4
                  (last_containing (contains_ipv4 a4) (subnet_tree st))\<rparr>)"
    by (simp add: lookup_subnet_ipv4_def scan_last_containing)
next
  assume "cache_check (cache_ipv6 st) a6 16 0 = None \<and>
    (\<forall>p\<in>set (subnet_tree st). contains_ipv6 a6 p \<longrightarrow>
        (\<exists>n. owner p = Some n \<and> \<not> status_reachable (nodes st n)))"
  then show "lookup_subnet_ipv6 a6 st =
        Inr (last_containing (contains_ipv6 a6) (subnet_tree st),
             st\<lparr>cache_ipv6 := cache_store (cache_ipv6 st) a6
                  (last_containing (contains_ipv6 a6) (subnet_tree st))\<rparr>)"
    by (simp add: lookup_subnet_ipv6_def scan_last_containing)
next
  fix p e
  assume "store_sorted (nodes st) (subnet_tree st) \<and> (\<forall>p\<in>set (subnet_tree st). valid_subnet p)"
    "p \<in> set (subnet_tree st)"
    "contains_ipv4 a4 p \<and> last_containing (contains_ipv4 a4) (subnet_tree st) = Some e"
  then show "ipv4_prefixlength e \<le> ipv4_prefixlength p"
    using last_containing_shortest4 [of "nodes st" "subnet_tree st" a4 e p] by blast
next
  fix p e
  assume "store_sorted (nodes st) (subnet_tree st) \<and> (\<forall>p\<in>set (subnet_tree st). valid_subnet p)"
    "p \<in> set (subnet_tree st)"
    "contains_ipv6 a6 p \<and> last_containing (contains_ipv6 a6) (subnet_tree st) = Some e"
  then show "ipv6_prefixlength e \<le> ipv6_prefixlength p"
    using last_containing_shortest6 [of "nodes st" "subnet_tree st" a6 e p] by blast
qed

lemmas contains_defs = contains_ipv4_def contains_ipv6_def maskcmp_def ipv4_net_def ipv6_net_def
  new_subnet_def mask_eq_exp_minus_1

lemma ex_contains:
  "contains_ipv4 ex_q4 (ex_net24\<lparr>owner := o1\<rparr>)" "contains_ipv4 ex_q4 (ex_net16\<lparr>owner := o2\<rparr>)"
  "\<not> contains_ipv4 ex_q4 (ex_v6net16\<lparr>owner := o3\<rparr>)" "\<not> contains_ipv4 ex_q4 (ex_v6net8\<lparr>owner := o4\<rparr>)"
  "\<not> contains_ipv6 ex_q6 (ex_net24\<lparr>owner := o1\<rparr>)" "\<not> contains_ipv6 ex_q6 (ex_net16\<lparr>owner := o2\<rparr>)"
  "contains_ipv6 ex_q6 (ex_v6net16\<lparr>owner := o3\<rparr>)" "contains_ipv6 ex_q6 (ex_v6net8\<lparr>owner := o4\<rparr>)"
  by (simp_all add: contains_defs)

lemma ex_reachable: "status_reachable (nodes ex_reach n) = (n = 1)"
  "status_reachable (nodes ex_unreach n) = (n = 1)"
  by (subst ex_nodes_of, simp add: ex_nodes_def)+

lemma ex_miss: "cache_check (cache_ipv4 ex_reach) a 4 0 = None" "cache_check (cache_ipv6 ex_reach) a 16 0 = None"
  "cache_check (cache_ipv4 ex_unreach) a 4 0 = None" "cache_check (cache_ipv6 ex_unreach) a 16 0 = None"
  by (simp_all add: cache_check_unroll ex_caches)

text \<open>
  Claim C2. When the cache misses, the first entry in the order of the scan
  that contains the address and whose owner is reachable is the result,
  whatever entries stand after it and however many containing entries with
  unreachable owners stand before it.
\<close>

theorem first_reachable_candidate_adopted:
  "(cache_check (cache_ipv4 st) a4 4 0 = None \<and> subnet_tree st = pre4 @ p4 # post4 \<and>
    (\<forall>q\<in>set pre4. contains_ipv4 a4 q \<longrightarrow>
        (\<exists>n. owner q = Some n \<and> \<not> status_reachable (nodes st n))) \<and>
    contains_ipv4 a4 p4 \<and> owner p4 = Some n4 \<and> status_reachable (nodes st n4) \<longrightarrow>
      lookup_subnet_ipv4 a4 st =
        Inr (Some p4, st\<lparr>cache_ipv4 := cache_store (cache_ipv4 st) a4 (Some p4)\<rparr>)) \<and>
   (cache_check (cache_ipv6 st) a6 16 0 = None \<and> subnet_tree st = pre6 @ p6 # post6 \<and>
    (\<forall>q\<in>set pre6. contains_ipv6 a6 q \<longrightarrow>
        (\<exists>n. owner q = Some n \<and> \<not> status_reachable (nodes st n))) \<and>
    contains_ipv6 a6 p6 \<and> owner p6 = Some n6 \<and> status_reachable (nodes st n6) \<longrightarrow>
      lookup_subnet_ipv6 a6 st =
        Inr (Some p6, st\<lparr>cache_ipv6 := cache_store (cache_ipv6 st) a6 (Some p6)\<rparr>))"
  by (simp add: lookup_subnet_ipv4_def lookup_subnet_ipv6_def scan_first_reachable)

text \<open>
  Instance of C2, the example of the claim: 10.0.0.0/24 (owner unreachable)
  and 10.0.0.0/16 (owner reachable) both contain 10.0.0.5, and the lookup
  returns the /16 entry; the same for fd00::/16 and fd00::/8.
\<close>

theorem first_reachable_candidate_adopted_witness:
  "subnet_tree ex_reach =
     [ex_net24\<lparr>owner := Some 2\<rparr>, ex_net16\<lparr>owner := Some 1\<rparr>, ex_v6net16\<lparr>owner := Some 2\<rparr>, ex_v6net8\<lparr>owner := Some 1\<rparr>] \<and>
   contains_ipv4 ex_q4 (ex_net24\<lparr>owner := Some 2\<rparr>) \<and> \<not> status_reachable (nodes ex_reach 2) \<and>
   contains_ipv4 ex_q4 (ex_net16\<lparr>owner := Some 1\<rparr>) \<and> status_reachable (nodes ex_reach 1) \<and>
   lookup_subnet_ipv4 ex_q4 ex_reach =
     Inr (Some (ex_net16\<lparr>owner := Some 1\<rparr>),
          ex_reach\<lparr>cache_ipv4 := cache_store (cache_ipv4 ex_reach) ex_q4 (Some (ex_net16\<lparr>owner := Some 1\<rparr>))\<rparr>) \<and>
   contains_ipv6 ex_q6 (ex_v6net16\<lparr>owner := Some 2\<rparr>) \<and> contains_ipv6 ex_q6 (ex_v6net8\<lparr>owner := Some 1\<rparr>) \<and>
   lookup_subnet_ipv6 ex_q6 ex_reach =
     Inr (Some (ex_v6net8\<lparr>owner := Some 1\<rparr>),
          ex_reach\<lparr>cache_ipv6 := cache_store (cache_ipv6 ex_reach) ex_q6 (Some (ex_v6net8\<lparr>owner := Some 1\<rparr>))\<rparr>)"
  using first_reachable_candidate_adopted [of ex_reach ex_q4 "[ex_net24\<lparr>owner := Some 2\<rparr>]" "ex_net16\<lparr>owner := Some 1\<rparr>"
      "[ex_v6net16\<lparr>owner := Some 2\<rparr>, ex_v6net8\<lparr>owner := Some 1\<rparr>]" 1
      ex_q6 "[ex_net24\<lparr>owner := Some 2\<rparr>, ex_net16\<lparr>owner := Some 1\<rparr>, ex_v6net16\<lparr>owner := Some 2\<rparr>]" "ex_v6net8\<lparr>owner := Some 1\<rparr>" "[]" 1]
  by (simp add: ex_reach_tree ex_miss ex_reachable ex_contains)

text \<open>
  Claim C1 as stated fails: with 10.0.0.0/24 and 10.0.0.0/16 both owned by
  unreachable nodes, the lookup of 10.0.0.5 scans the whole tree and returns
  the /16 entry, although the /24 entry contains the address and has the
  longer prefix. The same for fd00::/16 and fd00::/8.
\<close>

theorem unreachable_scan_not_longest_prefix:
  "subnet_tree ex_unreach =
     [ex_net24\<lparr>owner := Some 2\<rparr>, ex_net16\<lparr>owner := Some 3\<rparr>, ex_v6net16\<lparr>owner := Some 2\<rparr>, ex_v6net8\<lparr>owner := Some 3\<rparr>] \<and>
   \<not> status_reachable (nodes ex_unreach 2) \<and> \<not> status_reachable (nodes ex_unreach 3) \<and>
   cache_check (cache_ipv4 ex_unreach) ex_q4 4 0 = None \<and>
   contains_ipv4 ex_q4 (ex_net24\<lparr>owner := Some 2\<rparr>) \<and> contains_ipv4 ex_q4 (ex_net16\<lparr>owner := Some 3\<rparr>) \<and>
   ipv4_prefixlength (ex_net24\<lparr>owner := Some 2\<rparr>) = 24 \<and> ipv4_prefixlength (ex_net16\<lparr>owner := Some 3\<rparr>) = 16 \<and>
   map_sum id fst (lookup_subnet_ipv4 ex_q4 ex_unreach) = Inr (Some (ex_net16\<lparr>owner := Some 3\<rparr>)) \<and>
   map_sum id fst (lookup_subnet_ipv4 ex_q4 ex_unreach) \<noteq> Inr (Some (ex_net24\<lparr>owner := Some 2\<rparr>)) \<and>
   cache_check (cache_ipv6 ex_unreach) ex_q6 16 0 = None \<and>
   contains_ipv6 ex_q6 (ex_v6net16\<lparr>owner := Some 2\<rparr>) \<and> contains_ipv6 ex_q6 (ex_v6net8\<lparr>owner := Some 3\<rparr>) \<and>
   map_sum id fst (lookup_subnet_ipv6 ex_q6 ex_unreach) = Inr (Some (ex_v6net8\<lparr>owner := Some 3\<rparr>)) \<and>
   map_sum id fst (lookup_subnet_ipv6 ex_q6 ex_unreach) \<noteq> Inr (Some (ex_v6net16\<lparr>owner := Some 2\<rparr>))"
proof -
  have 4: "map_sum id fst (lookup_subnet_ipv4 ex_q4 ex_unreach) = Inr (Some (ex_net16\<lparr>owner := Some 3\<rparr>))"
    by (simp add: lookup4_flushed ex_caches ex_unreach_tree ex_contains ex_reachable)
  have 6: "map_sum id fst (lookup_subnet_ipv6 ex_q6 ex_unreach) = Inr (Some (ex_v6net8\<lparr>owner := Some 3\<rparr>))"
    by (simp add: lookup6_flushed ex_caches ex_unreach_tree ex_contains ex_reachable)
  have d: "ex_net16\<lparr>owner := Some 3\<rparr> \<noteq> ex_net24\<lparr>owner := Some 2\<rparr>" "ex_v6net8\<lparr>owner := Some 3\<rparr> \<noteq> ex_v6net16\<lparr>owner := Some 2\<rparr>"
    by (simp_all add: ipv4_net_def ipv6_net_def new_subnet_def)
  show ?thesis
    by (simp add: 4 6 d ex_unreach_tree ex_miss ex_reachable ex_contains)
       (simp add: ipv4_net_def)
qed

text \<open>
  Instance of the theorem for C1 on the store of two unreachable owners.
\<close>

theorem unreachable_scan_returns_last_witness:
  "lookup_subnet_ipv4 ex_q4 ex_unreach =
     Inr (Some (ex_net16\<lparr>owner := Some 3\<rparr>),
          ex_unreach\<lparr>cache_ipv4 := cache_store (cache_ipv4 ex_unreach) ex_q4 (Some (ex_net16\<lparr>owner := Some 3\<rparr>))\<rparr>) \<and>
   lookup_subnet_ipv6 ex_q6 ex_unreach =
     Inr (Some (ex_v6net8\<lparr>owner := Some 3\<rparr>),
          ex_unreach\<lparr>cache_ipv6 := cache_store (cache_ipv6 ex_unreach) ex_q6 (Some (ex_v6net8\<lparr>owner := Some 3\<rparr>))\<rparr>) \<and>
   store_sorted (nodes ex_unreach) (subnet_tree ex_unreach) \<and>
   valid_subnet (ex_net24\<lparr>owner := Some 2\<rparr>) \<and> valid_subnet (ex_net16\<lparr>owner := Some 3\<rparr>) \<and>
   valid_subnet (ex_v6net16\<lparr>owner := Some 2\<rparr>) \<and> valid_subnet (ex_v6net8\<lparr>owner := Some 3\<rparr>) \<and>
   ipv4_prefixlength (ex_net16\<lparr>owner := Some 3\<rparr>) \<le> ipv4_prefixlength (ex_net24\<lparr>owner := Some 2\<rparr>) \<and>
   ipv6_prefixlength (ex_v6net8\<lparr>owner := Some 3\<rparr>) \<le> ipv6_prefixlength (ex_v6net16\<lparr>owner := Some 2\<rparr>)"
proof -
  have l: "last_containing (contains_ipv4 ex_q4) (subnet_tree ex_unreach) = Some (ex_net16\<lparr>owner := Some 3\<rparr>)"
    "last_containing (contains_ipv6 ex_q6) (subnet_tree ex_unreach) = Some (ex_v6net8\<lparr>owner := Some 3\<rparr>)"
    by (simp_all add: last_containing_def ex_unreach_tree ex_contains)
  have v: "valid_subnet (ex_net24\<lparr>owner := Some 2\<rparr>)" "valid_subnet (ex_net16\<lparr>owner := Some 3\<rparr>)"
    "valid_subnet (ex_v6net16\<lparr>owner := Some 2\<rparr>)" "valid_subnet (ex_v6net8\<lparr>owner := Some 3\<rparr>)"
    by (simp_all add: valid_subnet_def wf_subnet_def ipv4_net_def ipv6_net_def new_subnet_def)
  have s: "store_sorted (nodes ex_unreach) (subnet_tree ex_unreach)"
    by (simp add: store_sorted_def ex_unreach_tree subnet_compare_def subnet_compare_ipv4_def
        subnet_compare_ipv6_def int_sub_def wrap_int_def ipv4_net_def ipv6_net_def new_subnet_def)
  show ?thesis
    using unreachable_scan_returns_last [of ex_unreach ex_q4 ex_q6] l v s
    by (simp add: ex_miss ex_unreach_tree ex_reachable ex_contains)
qed

text \<open>
  Instance of C9. The lookup of 10.0.0.5 in \<open>ex_reach\<close> returns the /16 of A
  and caches it; repeated, it returns the /16 from the cache. It still does
  after B has become reachable, when a scan of the store would return the /24
  of B. The lookup of fe00::1 matches nothing: absent is cached and returned
  again.
\<close>

theorem repeated_lookup_same_result_witness:
  "lookup_subnet_ipv4 ex_q4 ex_reach = Inr (Some (ex_net16\<lparr>owner := Some 1\<rparr>), ex_looked4) \<and>
   subnet_tree ex_looked4 = subnet_tree ex_reach \<and> nodes ex_looked4 = nodes ex_reach \<and>
   cache_check (cache_ipv4 ex_looked4) ex_q4 4 0 = Some (Some (ex_net16\<lparr>owner := Some 1\<rparr>)) \<and>
   lookup_subnet_ipv4 ex_q4 ex_looked4 = Inr (Some (ex_net16\<lparr>owner := Some 1\<rparr>), ex_looked4) \<and>
   lookup_subnet_ipv4 ex_q4 (set_reachable 2 True ex_looked4) =
     Inr (Some (ex_net16\<lparr>owner := Some 1\<rparr>), set_reachable 2 True ex_looked4) \<and>
   scan (nodes (set_reachable 2 True ex_looked4)) (contains_ipv4 ex_q4)
     (subnet_tree (set_reachable 2 True ex_looked4)) None = Inr (Some (ex_net24\<lparr>owner := Some 2\<rparr>)) \<and>
   lookup_subnet_ipv6 ex_q6_none ex_reach = Inr (None, ex_looked6) \<and>
   cache_check (cache_ipv6 ex_looked6) ex_q6_none 16 0 = Some None \<and>
   lookup_subnet_ipv6 ex_q6_none ex_looked6 = Inr (None, ex_looked6)"
proof -
  have 4: "lookup_subnet_ipv4 ex_q4 ex_reach = Inr (Some (ex_net16\<lparr>owner := Some 1\<rparr>), ex_looked4)"
    by (simp add: lookup_subnet_ipv4_def ex_miss ex_reach_tree ex_contains ex_reachable ex_looked4_def)
  have 6: "lookup_subnet_ipv6 ex_q6_none ex_reach = Inr (None, ex_looked6)"
    by (simp add: lookup_subnet_ipv6_def ex_miss ex_reach_tree contains_defs ex_looked6_def)
  have c: "cache_ipv4 (set_reachable 2 True ex_looked4) = cache_ipv4 ex_looked4"
    by (simp add: set_reachable_def)
  have s: "scan (nodes (set_reachable 2 True ex_looked4)) (contains_ipv4 ex_q4)
     (subnet_tree (set_reachable 2 True ex_looked4)) None = Inr (Some (ex_net24\<lparr>owner := Some 2\<rparr>))"
    by (simp add: set_reachable_def ex_looked4_def ex_reach_tree ex_contains)
  show ?thesis
    using repeated_lookup_same_result [of ex_q4 ex_reach "Some (ex_net16\<lparr>owner := Some 1\<rparr>)" ex_looked4
        "set_reachable 2 True ex_looked4" ex_q6_none None ex_looked6 ex_looked6] 4 6 c s
    by simp
qed

text \<open>
  Claim C4 at a failing input: the store holds the MAC entry 0:1:2:3:4:5 with
  weight 10, and \<open>lookup_subnet_mac\<close> of that address returns nothing. The
  probe has weight 0, and \<open>subnet_compare_mac\<close> returns the difference of the
  weights before it looks at the absent owner.
\<close>

theorem mac_lookup_misses_weighted_entry:
  "subnet_tree ex_mac = [(mac_net [0, 1, 2, 3, 4, 5] 10)\<lparr>owner := Some 1\<rparr>] \<and>
   type ((mac_net [0, 1, 2, 3, 4, 5] 10)\<lparr>owner := Some 1\<rparr>) = SUBNET_MAC \<and>
   mac_address ((mac_net [0, 1, 2, 3, 4, 5] 10)\<lparr>owner := Some 1\<rparr>) = [0, 1, 2, 3, 4, 5] \<and>
   lookup_subnet_mac [0, 1, 2, 3, 4, 5] ex_mac = None"
  by (simp add: ex_mac_def lookup_subnet_mac_def ex_defs)

section \<open>The comparison function as an order\<close>

lemma ordering_onI:
  assumes "\<And>a b. D a \<Longrightarrow> D b \<Longrightarrow> (f a b < 0 \<longleftrightarrow> 0 < f b a)"
    and "\<And>a b c. D a \<Longrightarrow> D b \<Longrightarrow> D c \<Longrightarrow> f a b \<le> 0 \<Longrightarrow> f b c \<le> 0 \<Longrightarrow> f a c \<le> 0"
  shows "ordering_on D f"
  using assms unfolding ordering_on_def by blast

lemma ordering_on_sym: "ordering_on D f \<Longrightarrow> D a \<Longrightarrow> D b \<Longrightarrow> (f a b < 0 \<longleftrightarrow> 0 < f b a)"
  unfolding ordering_on_def by blast

lemma ordering_on_zero: 
  assumes "ordering_on D f" "D a" "D b" shows "(f a b = 0 \<longleftrightarrow> f b a = 0)"
  using ordering_on_sym [OF assms] ordering_on_sym [OF assms(1,3,2)] by linarith

lemma ordering_on_trans:
  "ordering_on D f \<Longrightarrow> D a \<Longrightarrow> D b \<Longrightarrow> D c \<Longrightarrow> f a b \<le> 0 \<Longrightarrow> f b c \<le> 0 \<Longrightarrow> f a c \<le> 0"
  unfolding ordering_on_def by blast

lemma ordering_on_trans_less1:
  assumes o: "ordering_on D f" and d: "D a" "D b" "D c" and 1: "f a b < 0" and 2: "f b c \<le> 0"
  shows "f a c < 0"
proof (rule ccontr)
  assume "\<not> f a c < 0"
  then have "f c a \<le> 0" using ordering_on_sym [OF o d(1,3)] by linarith
  with 2 have "f b a \<le> 0" using ordering_on_trans [OF o d(2,3,1)] by blast
  moreover from 1 have "0 < f b a" using ordering_on_sym [OF o d(1,2)] by blast
  ultimately show False by linarith
qed

lemma ordering_on_trans_less2:
  assumes o: "ordering_on D f" and d: "D a" "D b" "D c" and 1: "f a b \<le> 0" and 2: "f b c < 0"
  shows "f a c < 0"
proof (rule ccontr)
  assume "\<not> f a c < 0"
  then have "f c a \<le> 0" using ordering_on_sym [OF o d(1,3)] by linarith
  with 1 have "f c b \<le> 0" using ordering_on_trans [OF o d(3,1,2)] by blast
  moreover from 2 have "0 < f c b" using ordering_on_sym [OF o d(2,3)] by blast
  ultimately show False by linarith
qed

text \<open>First f, and g where f is 0: the pattern of every comparison function.\<close>

lemma ordering_on_lex:
  assumes f: "ordering_on D f"
    and gs: "\<And>a b. D a \<Longrightarrow> D b \<Longrightarrow> f a b = 0 \<Longrightarrow> (g a b < 0 \<longleftrightarrow> 0 < g b a)"
    and gt: "\<And>a b c. D a \<Longrightarrow> D b \<Longrightarrow> D c \<Longrightarrow> f a b = 0 \<Longrightarrow> f b c = 0 \<Longrightarrow>
               g a b \<le> 0 \<Longrightarrow> g b c \<le> 0 \<Longrightarrow> g a c \<le> 0"
  shows "ordering_on D (\<lambda>a b. if f a b \<noteq> 0 then f a b else g a b)"
proof (rule ordering_onI)
  fix a b assume d: "D a" "D b"
  show "((if f a b \<noteq> 0 then f a b else g a b) < 0) = (0 < (if f b a \<noteq> 0 then f b a else g b a))"
    using ordering_on_sym [OF f d] ordering_on_zero [OF f d] gs [OF d] by auto
next
  fix a b c assume d: "D a" "D b" "D c"
    and 1: "(if f a b \<noteq> 0 then f a b else g a b) \<le> 0"
    and 2: "(if f b c \<noteq> 0 then f b c else g b c) \<le> 0"
  from 1 have ab: "f a b < 0 \<or> (f a b = 0 \<and> g a b \<le> 0)" by (auto split: if_splits)
  from 2 have bc: "f b c < 0 \<or> (f b c = 0 \<and> g b c \<le> 0)" by (auto split: if_splits)
  from ab bc consider "f a b < 0" "f b c \<le> 0" | "f a b \<le> 0" "f b c < 0"
    | "f a b = 0" "g a b \<le> 0" "f b c = 0" "g b c \<le> 0" by linarith
  then show "(if f a c \<noteq> 0 then f a c else g a c) \<le> 0"
  proof cases
    case 1
    then have "f a c < 0" using ordering_on_trans_less1 [OF f d] by blast
    then show ?thesis by simp
  next
    case 2
    then have "f a c < 0" using ordering_on_trans_less2 [OF f d] by blast
    then show ?thesis by simp
  next
    case 3
    have "f a c \<le> 0" using ordering_on_trans [OF f d] 3 by simp
    moreover have "f c a \<le> 0"
      using ordering_on_trans [OF f d(3,2,1)] 3 ordering_on_zero [OF f d(1,2)] ordering_on_zero [OF f d(2,3)] by simp
    ultimately have "f a c = 0" using ordering_on_sym [OF f d(1,3)] by linarith
    moreover have "g a c \<le> 0" using gt [OF d] 3 by blast
    ultimately show ?thesis by simp
  qed
qed

lemma memcmp_sym: "(memcmp a b n < 0) = (0 < memcmp b a n)"
proof (induction a arbitrary: b n)
  case Nil
  then show ?case by simp
next
  case (Cons x xs)
  then show ?case by (cases b) auto
qed

lemma memcmp_trans:
  "length a = length b \<Longrightarrow> length b = length c \<Longrightarrow>
   memcmp a b n \<le> 0 \<Longrightarrow> memcmp b c n \<le> 0 \<Longrightarrow> memcmp a c n \<le> 0"
proof (induction a b c arbitrary: n rule: list_induct3)
  case Nil
  then show ?case by simp
next
  case (Cons x xs y ys z zs)
  have inj: "\<And>u v :: u8. (uint u = uint v) = (u = v)"
    by (simp add: word_uint_eq_iff)
  from Cons show ?case by (auto simp: inj split: if_splits)
qed

lemma of_char_zero: "(of_char x = (0::nat)) = (x = CHR 0x00)"
  using of_char_eq_iff [of x "CHR 0x00", where ?'a = nat] by simp

lemma strcmp_sym: "(strcmp a b < 0) = (0 < strcmp b a)"
  by (induction a b rule: strcmp.induct) auto

lemma strcmp_trans: "strcmp a b \<le> 0 \<Longrightarrow> strcmp b c \<le> 0 \<Longrightarrow> strcmp a c \<le> 0"
proof (induction a arbitrary: b c)
  case Nil
  then show ?case by (cases c) auto
next
  case (Cons x xs)
  show ?case
  proof (cases b)
    case Nil
    with Cons.prems show ?thesis by (cases c) (auto simp: of_char_zero split: if_splits)
  next
    case b: (Cons y ys)
    show ?thesis
    proof (cases c)
      case Nil
      with Cons.prems b show ?thesis by (auto split: if_splits)
    next
      case c: (Cons z zs)
      with Cons b show ?thesis by (auto split: if_splits)
    qed
  qed
qed

lemma ordering_on_cong:
  assumes "ordering_on D g" and "\<And>a b. D a \<Longrightarrow> D b \<Longrightarrow> f a b = g a b"
  shows "ordering_on D f"
  using assms unfolding ordering_on_def by metis

lemma ordering_on_lex2:
  assumes "ordering_on D f" "ordering_on D g"
  shows "ordering_on D (\<lambda>a b. if f a b \<noteq> 0 then f a b else g a b)"
  using assms(1)
proof (rule ordering_on_lex)
  show "\<And>a b. D a \<Longrightarrow> D b \<Longrightarrow> f a b = 0 \<Longrightarrow> (g a b < 0) = (0 < g b a)"
    using ordering_on_sym [OF assms(2)] by blast
  show "\<And>a b c. D a \<Longrightarrow> D b \<Longrightarrow> D c \<Longrightarrow> f a b = 0 \<Longrightarrow> f b c = 0 \<Longrightarrow>
               g a b \<le> 0 \<Longrightarrow> g b c \<le> 0 \<Longrightarrow> g a c \<le> 0"
    using ordering_on_trans [OF assms(2)] by blast
qed

lemma int_sub_weight:
  "ordered_entry a \<Longrightarrow> ordered_entry b \<Longrightarrow> int_sub (weight a) (weight b) = weight a - weight b"
  by (simp add: ordered_entry_def int_sub_def wrap_int_def)

lemma int_sub_prefix4:
  "ordered_entry a \<Longrightarrow> ordered_entry b \<Longrightarrow> type a = SUBNET_IPV4 \<Longrightarrow> type b = SUBNET_IPV4 \<Longrightarrow>
   int_sub (ipv4_prefixlength b) (ipv4_prefixlength a) = ipv4_prefixlength b - ipv4_prefixlength a"
  by (simp add: ordered_entry_def valid_subnet_def int_sub_def wrap_int_def)

lemma int_sub_prefix6:
  "ordered_entry a \<Longrightarrow> ordered_entry b \<Longrightarrow> type a = SUBNET_IPV6 \<Longrightarrow> type b = SUBNET_IPV6 \<Longrightarrow>
   int_sub (ipv6_prefixlength b) (ipv6_prefixlength a) = ipv6_prefixlength b - ipv6_prefixlength a"
  by (simp add: ordered_entry_def valid_subnet_def int_sub_def wrap_int_def)

lemma ordered_lengths:
  "ordered_entry a \<Longrightarrow> length (mac_address a) = 6 \<and> length (ipv4_address a) = 4 \<and> length (ipv6_address a) = 16"
  by (simp add: ordered_entry_def valid_subnet_def wf_subnet_def)

lemma order_weight_owner: "ordering_on ordered_entry (compare_weight_owner ns)"
proof -
  have w: "ordering_on ordered_entry (\<lambda>a b. weight a - weight b)"
    by (rule ordering_onI) auto
  have n: "ordering_on ordered_entry
      (\<lambda>a b. strcmp (name (ns (the (owner a)))) (name (ns (the (owner b)))))"
    by (rule ordering_onI) (auto simp: strcmp_sym intro: strcmp_trans)
  show ?thesis
  proof (rule ordering_on_cong [OF ordering_on_lex2 [OF w n]])
    fix a b assume d: "ordered_entry a" "ordered_entry b"
    then have "owner a \<noteq> None" "owner b \<noteq> None"
      by (simp_all add: ordered_entry_def)
    then show "compare_weight_owner ns a b =
        (if weight a - weight b \<noteq> 0 then weight a - weight b
         else strcmp (name (ns (the (owner a)))) (name (ns (the (owner b)))))"
      by (auto simp: compare_weight_owner_def Let_def int_sub_weight [OF d])
  qed
qed

lemma order_memcmp:
  assumes "\<And>a. D a \<Longrightarrow> length (f a) = k"
  shows "ordering_on D (\<lambda>a b. memcmp (f a) (f b) n)"
proof (rule ordering_onI)
  show "\<And>a b. (memcmp (f a) (f b) n < 0) = (0 < memcmp (f b) (f a) n)"
    by (rule memcmp_sym)
  fix a b c assume "D a" "D b" "D c"
  then have "length (f a) = length (f b)" "length (f b) = length (f c)"
    using assms by simp_all
  then show "memcmp (f a) (f b) n \<le> 0 \<Longrightarrow> memcmp (f b) (f c) n \<le> 0 \<Longrightarrow>
      memcmp (f a) (f c) n \<le> 0"
    by (rule memcmp_trans)
qed

lemma order_mac: "ordering_on ordered_entry (subnet_compare_mac ns)"
  by (rule ordering_on_cong [OF ordering_on_lex2 [OF order_memcmp [of ordered_entry mac_address 6 6] order_weight_owner [of ns]]])
     (simp_all add: ordered_lengths subnet_compare_mac_def Let_def)

lemma of_kindD: "of_kind k s \<Longrightarrow> ordered_entry s" "of_kind k s \<Longrightarrow> type s = k"
  by (simp_all add: of_kind_def)

lemma ordering_on_mono: "ordering_on D f \<Longrightarrow> (\<And>a. E a \<Longrightarrow> D a) \<Longrightarrow> ordering_on E f"
  unfolding ordering_on_def by blast

lemma order_ipv4: "ordering_on (of_kind SUBNET_IPV4) (subnet_compare_ipv4 ns)"
proof -
  let ?D = "of_kind SUBNET_IPV4"
  have p: "ordering_on ?D (\<lambda>a b. ipv4_prefixlength b - ipv4_prefixlength a)"
    by (rule ordering_onI) auto
  have m: "ordering_on ?D (\<lambda>a b. memcmp (ipv4_address a) (ipv4_address b) 4)"
    by (rule order_memcmp [of _ _ 4]) (simp add: of_kind_def ordered_lengths)
  have t: "ordering_on ?D (compare_weight_owner ns)"
    by (rule ordering_on_mono [OF order_weight_owner]) (simp add: of_kind_def)
  show ?thesis
    by (rule ordering_on_cong [OF ordering_on_lex2 [OF p ordering_on_lex2 [OF m t]]])
       (simp add: subnet_compare_ipv4_def Let_def int_sub_prefix4 of_kindD)
qed

lemma order_ipv6: "ordering_on (of_kind SUBNET_IPV6) (subnet_compare_ipv6 ns)"
proof -
  let ?D = "of_kind SUBNET_IPV6"
  have p: "ordering_on ?D (\<lambda>a b. ipv6_prefixlength b - ipv6_prefixlength a)"
    by (rule ordering_onI) auto
  have m: "ordering_on ?D (\<lambda>a b. memcmp (ipv6_address a) (ipv6_address b) 16)"
    by (rule order_memcmp [of _ _ 16]) (simp add: of_kind_def ordered_lengths)
  have t: "ordering_on ?D (compare_weight_owner ns)"
    by (rule ordering_on_mono [OF order_weight_owner]) (simp add: of_kind_def)
  show ?thesis
    by (rule ordering_on_cong [OF ordering_on_lex2 [OF p ordering_on_lex2 [OF m t]]])
       (simp add: subnet_compare_ipv6_def Let_def int_sub_prefix6 of_kindD)
qed

lemma order_by_kind:
  "ordering_on (of_kind k)
     (\<lambda>a b. case k of SUBNET_MAC \<Rightarrow> subnet_compare_mac ns a b
        | SUBNET_IPV4 \<Rightarrow> subnet_compare_ipv4 ns a b | SUBNET_IPV6 \<Rightarrow> subnet_compare_ipv6 ns a b)"
proof (cases k)
  case SUBNET_MAC
  then show ?thesis
    using ordering_on_mono [OF order_mac [of ns], of "of_kind SUBNET_MAC"] by (simp add: of_kindD)
next
  case SUBNET_IPV4
  then show ?thesis using order_ipv4 [of ns] by simp
next
  case SUBNET_IPV6
  then show ?thesis using order_ipv6 [of ns] by simp
qed

lemma type_num_eq: "(type_num s - type_num t = 0) = (s = t)" "(type_num s = type_num t) = (s = t)"
  by (cases s; cases t; simp)+

lemma order_subnet_compare: "ordering_on ordered_entry (subnet_compare ns)"
proof -
  let ?g = "\<lambda>a b. case type a of SUBNET_MAC \<Rightarrow> subnet_compare_mac ns a b
        | SUBNET_IPV4 \<Rightarrow> subnet_compare_ipv4 ns a b | SUBNET_IPV6 \<Rightarrow> subnet_compare_ipv6 ns a b"
  have t: "ordering_on ordered_entry (\<lambda>a b. type_num (type a) - type_num (type b))"
    by (rule ordering_onI) auto
  have l: "ordering_on ordered_entry
     (\<lambda>a b. if type_num (type a) - type_num (type b) \<noteq> 0
        then type_num (type a) - type_num (type b) else ?g a b)"
    using t
  proof (rule ordering_on_lex)
    fix a b assume "ordered_entry a" "ordered_entry b" "type_num (type a) - type_num (type b) = 0"
    then have "of_kind (type a) a" "of_kind (type a) b" "type b = type a"
      by (simp_all add: of_kind_def type_num_eq)
    then show "(?g a b < 0) = (0 < ?g b a)"
      using ordering_on_sym [OF order_by_kind [of "type a" ns], of a b] by simp
  next
    fix a b c assume "ordered_entry a" "ordered_entry b" "ordered_entry c"
      "type_num (type a) - type_num (type b) = 0" "type_num (type b) - type_num (type c) = 0"
      and le: "?g a b \<le> 0" "?g b c \<le> 0"
    then have k: "of_kind (type a) a" "of_kind (type a) b" "of_kind (type a) c" and e: "type b = type a"
      by (simp_all add: of_kind_def type_num_eq)
    show "?g a c \<le> 0"
      using ordering_on_trans [OF order_by_kind [of "type a" ns] k] le e by simp
  qed
  show ?thesis
    by (rule ordering_on_cong [OF l]) (simp add: subnet_compare_def Let_def)
qed

lemma tail_less:
  "ordered_entry a \<Longrightarrow> ordered_entry b \<Longrightarrow>
   (compare_weight_owner ns a b < 0) = spec_tail_less ns a b"
  by (auto simp: compare_weight_owner_def Let_def int_sub_weight spec_tail_less_def ordered_entry_def)

lemma compare_is_spec_less:
  assumes "ordered_entry a" "ordered_entry b" "type a = type b"
  shows "(subnet_compare ns a b < 0) = spec_less ns a b"
proof (cases "type a")
  case SUBNET_MAC
  with assms show ?thesis
    by (auto simp: subnet_compare_def subnet_compare_mac_def Let_def spec_less_def tail_less)
next
  case SUBNET_IPV4
  with assms show ?thesis
    using int_sub_prefix4 [of a b]
    by (auto simp: subnet_compare_def subnet_compare_ipv4_def Let_def spec_less_def tail_less)
next
  case SUBNET_IPV6
  with assms show ?thesis
    using int_sub_prefix6 [of a b]
    by (auto simp: subnet_compare_def subnet_compare_ipv6_def Let_def spec_less_def tail_less)
qed

section \<open>Parsing what was printed\<close>

lemma of_char_digit_char: "d < 16 \<Longrightarrow> (of_char (digit_char d) :: nat) = (if d < 10 then 48 + d else 87 + d)"
  by (simp add: digit_char_def)

lemma digit_val_digit_char: "d < 16 \<Longrightarrow> digit_val (digit_char d) = d"
  by (simp add: digit_val_def of_char_digit_char Let_def)

lemma isdigit_digit_char: "d < 10 \<Longrightarrow> isdigit (digit_char d)"
  by (simp add: isdigit_def of_char_digit_char)

lemma isxdigit_digit_char: "d < 16 \<Longrightarrow> isxdigit (digit_char d)"
  by (simp add: isxdigit_def isdigit_def of_char_digit_char)

lemma is_digit_of_digit_char:
  "base = 10 \<or> base = 16 \<Longrightarrow> d < base \<Longrightarrow> is_digit_of base (digit_char d)"
  by (auto simp: is_digit_of_def isdigit_digit_char isxdigit_digit_char)

lemma isdigit_isxdigit: "isdigit c \<Longrightarrow> isxdigit c"
  by (simp add: isxdigit_def)

lemma isxdigit_plain:
  "isxdigit c \<Longrightarrow> \<not> isspace c \<and> c \<noteq> CHR ''-'' \<and> c \<noteq> CHR ''+'' \<and> c \<noteq> CHR ''x'' \<and> c \<noteq> CHR ''X''
     \<and> c \<noteq> CHR ''.'' \<and> c \<noteq> CHR '':'' \<and> c \<noteq> CHR ''/'' \<and> c \<noteq> CHR ''#''"
  by (auto simp: isxdigit_def isdigit_def isspace_def)

lemma is_digit_of_isxdigit: "is_digit_of base c \<Longrightarrow> isxdigit c"
  by (auto simp: is_digit_of_def isdigit_isxdigit split: if_splits)

lemma char_of_48: "char_of (48::nat) = CHR ''0''"
  by (simp add: char_of_eq_iff)

lemma digit_char_zero: "d < 16 \<Longrightarrow> (digit_char d = CHR ''0'') = (d = 0)"
proof
  assume "d < 16" "digit_char d = CHR ''0''"
  then have "(of_char (digit_char d) :: nat) = 48" by simp
  with \<open>d < 16\<close> show "d = 0" by (simp add: of_char_digit_char split: if_splits)
next
  assume "d = 0" then show "digit_char d = CHR ''0''" by (simp add: digit_char_def char_of_48)
qed

lemma digits_value_snoc: "digits_value base (ds @ [c]) = digits_value base ds * base + digit_val c"
  by (simp add: digits_value_def)

lemma digits_of_value:
  "2 \<le> base \<Longrightarrow> base \<le> 16 \<Longrightarrow> digits_value base (digits_of base n) = n"
proof (induction base n rule: digits_of.induct)
  case (1 base n)
  show ?case
  proof (cases "n < base")
    case True
    with 1 show ?thesis
      by (simp add: digits_of.simps [of base n] digits_value_def digit_val_digit_char)
  next
    case False
    with 1 have "digits_value base (digits_of base (n div base)) = n div base" by simp
    moreover have "n mod base < 16" using 1(2,3) by (simp add: less_le_trans [OF mod_less_divisor])
    ultimately show ?thesis using False 1(2)
      by (simp add: digits_of.simps [of base n] digits_value_snoc digit_val_digit_char)
  qed
qed

lemma digits_of_digits:
  "base = 10 \<or> base = 16 \<Longrightarrow> c \<in> set (digits_of base n) \<Longrightarrow> is_digit_of base c"
proof (induction base n rule: digits_of.induct)
  case (1 base n)
  show ?case
  proof (cases "n < base")
    case True
    with 1 show ?thesis
      by (auto simp: digits_of.simps [of base n] is_digit_of_digit_char)
  next
    case False
    have "n mod base < base" using 1(2) by auto
    with 1 False show ?thesis
      by (auto simp: digits_of.simps [of base n] is_digit_of_digit_char)
  qed
qed

lemma digits_of_nonempty: "digits_of base n \<noteq> []"
  by (simp add: digits_of.simps [of base n])

text \<open>No leading zero: a text that starts with 0 is the text of 0.\<close>

lemma digits_of_hd_zero:
  "2 \<le> base \<Longrightarrow> base \<le> 16 \<Longrightarrow> hd (digits_of base n) = CHR ''0'' \<Longrightarrow> n = 0"
proof (induction base n rule: digits_of.induct)
  case (1 base n)
  show ?case
  proof (cases "n < base")
    case True
    with 1 show ?thesis
      by (simp add: digits_of.simps [of base n] digit_char_zero)
  next
    case False
    with 1(4) have "hd (digits_of base (n div base)) = CHR ''0''"
      using 1(2) by (simp add: digits_of.simps [of base n] digits_of_nonempty)
    with 1 False have "n div base = 0" by simp
    with False 1(2) show ?thesis by (simp add: div_eq_0_iff)
  qed
qed

lemma digits_of_zero: "digits_of base 0 = ''0''"
  by (auto simp: digits_of.simps [of base 0] digit_char_def char_of_48)

lemma length_digits_of:
  "2 \<le> base \<Longrightarrow> 0 < k \<Longrightarrow> n < base ^ k \<Longrightarrow> length (digits_of base n) \<le> k"
proof (induction k arbitrary: n)
  case 0
  then show ?case by simp
next
  case (Suc k)
  show ?case
  proof (cases "n < base")
    case True
    then show ?thesis by (simp add: digits_of.simps [of base n])
  next
    case False
    then have k: "0 < k" using Suc.prems by (cases k) auto
    have "n div base < base ^ k"
      using Suc.prems by (simp add: less_mult_imp_div_less mult.commute)
    with Suc.IH [OF Suc.prems(1) k] have "length (digits_of base (n div base)) \<le> k" by simp
    with False Suc.prems(1) show ?thesis by (simp add: digits_of.simps [of base n])
  qed
qed

lemma dropWhile_hd: "xs \<noteq> [] \<Longrightarrow> \<not> P (hd xs) \<Longrightarrow> dropWhile P (xs @ r) = xs @ r"
  by (cases xs) simp_all

lemma takeWhile_all: "\<forall>c\<in>set ds. P c \<Longrightarrow> r = [] \<or> \<not> P (hd r) \<Longrightarrow> takeWhile P (ds @ r) = ds"
  by (cases r) (simp_all add: takeWhile_append2)

lemma dropWhile_all: "\<forall>c\<in>set ds. P c \<Longrightarrow> r = [] \<or> \<not> P (hd r) \<Longrightarrow> dropWhile P (ds @ r) = r"
  by (cases r) (simp_all add: dropWhile_append2)

lemma scan_sign_plain: "s = [] \<or> (hd s \<noteq> CHR ''-'' \<and> hd s \<noteq> CHR ''+'') \<Longrightarrow> scan_sign s = (False, s)"
  by (cases s) (simp_all add: scan_sign_def)

lemma scan_number_digits:
  assumes ne: "ds \<noteq> []" and dig: "\<forall>c\<in>set ds. is_digit_of base c"
    and r: "r = [] \<or> \<not> is_digit_of base (hd r)"
    and x: "base \<noteq> 16 \<or> scan_0x (ds @ r) = (False, ds @ r)"
  shows "scan_number base (ds @ r) = Some (False, digits_value base ds, r)"
proof -
  from ne have "hd ds \<in> set ds" by simp
  with dig have h: "isxdigit (hd ds)" using is_digit_of_isxdigit by blast
  have 1: "dropWhile isspace (ds @ r) = ds @ r"
    using ne h by (simp add: dropWhile_hd isxdigit_plain)
  have 2: "scan_sign (ds @ r) = (False, ds @ r)"
    using ne h by (simp add: scan_sign_plain isxdigit_plain)
  have 3: "(if base = 16 then scan_0x (ds @ r) else (False, ds @ r)) = (False, ds @ r)"
    using x by auto
  show ?thesis
    by (simp add: scan_number_def 1 2 3 Let_def takeWhile_all [OF dig r] dropWhile_all [OF dig r] ne
        del: dropWhile_append takeWhile_append)
qed

lemma scan_0x_digits_of:
  assumes "r = [] \<or> (hd r \<noteq> CHR ''x'' \<and> hd r \<noteq> CHR ''X'')"
  shows "scan_0x (digits_of 16 n @ r) = (False, digits_of 16 n @ r)"
proof (cases "hd (digits_of 16 n) = CHR ''0''")
  case True
  then have "n = 0" using digits_of_hd_zero [of 16 n] by simp
  with assms show ?thesis
    by (cases r) (simp_all add: digits_of_zero scan_0x_def)
next
  case False
  obtain c cs where "digits_of 16 n = c # cs"
    using digits_of_nonempty [of 16 n] by (cases "digits_of 16 n") auto
  with False show ?thesis
    by (simp add: scan_0x_def split: list.splits)
qed

lemma scan_digits_of:
  assumes b: "base = 10 \<or> base = 16"
    and r: "r = [] \<or> (\<not> isxdigit (hd r) \<and> hd r \<noteq> CHR ''x'' \<and> hd r \<noteq> CHR ''X'')"
  shows "scan_number base (digits_of base n @ r) = Some (False, n, r)"
proof -
  have "scan_number base (digits_of base n @ r) =
      Some (False, digits_value base (digits_of base n), r)"
  proof (rule scan_number_digits)
    show "digits_of base n \<noteq> []" by (rule digits_of_nonempty)
    show "\<forall>c\<in>set (digits_of base n). is_digit_of base c"
      using digits_of_digits [OF b] by blast
    show "r = [] \<or> \<not> is_digit_of base (hd r)"
      using r is_digit_of_isxdigit by blast
    show "base \<noteq> 16 \<or> scan_0x (digits_of base n @ r) = (False, digits_of base n @ r)"
      using r scan_0x_digits_of [of r n] by blast
  qed
  moreover have "digits_value base (digits_of base n) = n"
    using b by (auto simp: digits_of_value)
  ultimately show ?thesis by simp
qed

lemma scan_digits_of_Cons:
  "base = 10 \<or> base = 16 \<Longrightarrow> \<not> isxdigit c \<Longrightarrow> c \<noteq> CHR ''x'' \<Longrightarrow> c \<noteq> CHR ''X'' \<Longrightarrow>
   scan_number base (digits_of base n @ c # r) = Some (False, n, c # r)"
  by (rule scan_digits_of) simp_all

lemma scan_digits_of_Nil:
  "base = 10 \<or> base = 16 \<Longrightarrow> scan_number base (digits_of base n) = Some (False, n, [])"
  using scan_digits_of [of base "[]" n] by simp

lemma scan_minus_digits_of:
  assumes r: "r = [] \<or> \<not> isxdigit (hd r)"
  shows "scan_number 10 (CHR ''-'' # digits_of 10 n @ r) = Some (True, n, r)"
proof -
  let ?ds = "digits_of 10 n"
  have dig: "\<forall>c\<in>set ?ds. is_digit_of 10 c"
    using digits_of_digits [of 10] by blast
  have r': "r = [] \<or> \<not> is_digit_of 10 (hd r)"
    using r is_digit_of_isxdigit by blast
  have 1: "dropWhile isspace (CHR ''-'' # ?ds @ r) = CHR ''-'' # ?ds @ r"
    by (simp add: isspace_def)
  have 2: "scan_sign (CHR ''-'' # ?ds @ r) = (True, ?ds @ r)"
    by (simp add: scan_sign_def)
  show ?thesis
    by (simp add: scan_number_def 1 2 Let_def takeWhile_all [OF dig r'] dropWhile_all [OF dig r']
        digits_of_nonempty digits_of_value del: dropWhile_append takeWhile_append dropWhile.simps)
qed

text \<open>\<open>%hu\<close> on hexadecimal text followed by a colon: the next character is not a dot.\<close>

lemma dropWhile_no_dot:
  "\<forall>c\<in>set hs. c \<noteq> CHR ''.'' \<Longrightarrow> \<not> P (CHR '':'') \<Longrightarrow>
   \<exists>c' r'. dropWhile P (hs @ CHR '':'' # r) = c' # r' \<and> c' \<noteq> CHR ''.''"
  by (induction hs) auto

lemma hu_on_hex_text:
  "length (sscanf_from (digits_of 16 n @ CHR '':'' # r) (Conv_hu # Lit CHR ''.'' # fmt)) \<le> 1"
proof -
  let ?hs = "digits_of 16 n"
  let ?s = "?hs @ CHR '':'' # r"
  have x: "\<forall>c\<in>set ?hs. isxdigit c"
    using digits_of_digits [of 16 _ n] is_digit_of_isxdigit by blast
  moreover have "hd ?hs \<in> set ?hs" using digits_of_nonempty [of 16 n] by simp
  ultimately have h: "isxdigit (hd ?hs)" by blast
  have 1: "dropWhile isspace ?s = ?s"
    using h digits_of_nonempty [of 16 n] by (simp add: dropWhile_hd isxdigit_plain)
  have 2: "scan_sign ?s = (False, ?s)"
    using h digits_of_nonempty [of 16 n] by (simp add: scan_sign_plain isxdigit_plain)
  have nd: "\<forall>c\<in>set ?hs. c \<noteq> CHR ''.''" using x isxdigit_plain by blast
  have "\<not> is_digit_of 10 (CHR '':'')" by (simp add: is_digit_of_def isdigit_def)
  from dropWhile_no_dot [of ?hs "is_digit_of 10" r, OF nd this] obtain c' r' where
    3: "dropWhile (is_digit_of 10) ?s = c' # r'" and c': "c' \<noteq> CHR ''.''" by blast
  show ?thesis
    by (simp add: scan_number_def 1 2 3 c' Let_def del: dropWhile_append takeWhile_append)
qed

declare render.simps [simp del]

lemma uint_u8_bounds: "0 \<le> uint (b :: u8)" "uint (b :: u8) < 256" "uint (b :: u8) \<le> 255"
  using uint_lt2p [of b] by simp_all

lemma render_u8:
  "render Conv_hu (uint (b :: u8)) = digits_of 10 (unat b)"
  "render Conv_hx (uint (b :: u8)) = digits_of 16 (unat b)"
  using uint_u8_bounds [of b] by (simp_all add: render.simps)

lemma convert_u8:
  "convert Conv_hu False (unat (b :: u8)) = uint b"
  "convert Conv_hx False (unat (b :: u8)) = uint b"
  using uint_u8_bounds [of b] by simp_all

lemma convert_d:
  "- (2 ^ 31) \<le> w \<Longrightarrow> w < 2 ^ 31 \<Longrightarrow> convert Conv_d (w < 0) (nat \<bar>w\<bar>) = w"
  by (simp add: wrap_int_def)

lemma scan_render_d:
  assumes "r = [] \<or> (\<not> isxdigit (hd r) \<and> hd r \<noteq> CHR ''x'' \<and> hd r \<noteq> CHR ''X'')"
  shows "scan_number 10 (render Conv_d w @ r) = Some (w < 0, nat \<bar>w\<bar>, r)"
proof (cases "w < 0")
  case True
  then have "nat (- w) = nat \<bar>w\<bar>" by simp
  with True assms show ?thesis
    using scan_minus_digits_of [of r "nat (- w)"] by (auto simp: render.simps)
next
  case False
  then have "nat w = nat \<bar>w\<bar>" by simp
  with False assms show ?thesis
    using scan_digits_of [of 10 r "nat w"] by (simp add: render.simps)
qed

lemma scan_render_d_Cons:
  "\<not> isxdigit c \<Longrightarrow> c \<noteq> CHR ''x'' \<Longrightarrow> c \<noteq> CHR ''X'' \<Longrightarrow>
   scan_number 10 (render Conv_d w @ c # r) = Some (w < 0, nat \<bar>w\<bar>, c # r)"
  by (rule scan_render_d) simp

lemma scan_render_d_Nil: "scan_number 10 (render Conv_d w) = Some (w < 0, nat \<bar>w\<bar>, [])"
  using scan_render_d [of "[]" w] by simp

lemma sep_chars:
  "\<not> isxdigit (CHR ''.'')" "\<not> isxdigit (CHR '':'')" "\<not> isxdigit (CHR ''/'')" "\<not> isxdigit (CHR ''#'')"
  by (simp_all add: isxdigit_def isdigit_def)

lemmas scan_steps = scan_digits_of_Cons scan_digits_of_Nil scan_render_d_Cons scan_render_d_Nil sep_chars

lemma length_render_d: "- (2 ^ 31) \<le> w \<Longrightarrow> w < 2 ^ 31 \<Longrightarrow> length (render Conv_d w) \<le> 11"
proof -
  assume w: "- (2 ^ 31) \<le> w" "w < 2 ^ 31"
  have "nat \<bar>w\<bar> < 10 ^ 10" using w by simp
  then have "length (digits_of 10 (nat \<bar>w\<bar>)) \<le> 10"
    by (intro length_digits_of) simp_all
  then show ?thesis by (cases "w < 0") (simp_all add: render.simps abs_if)
qed

lemma length_digits_u8: "length (digits_of 10 (unat (b :: u8))) \<le> 3" "length (digits_of 16 (unat (b :: u8))) \<le> 2"
proof -
  have "unat b < 2 ^ LENGTH(8)" by (rule unsigned_less)
  then have "unat b < 256" by simp
  then show "length (digits_of 10 (unat b)) \<le> 3" "length (digits_of 16 (unat b)) \<le> 2"
    by (intro length_digits_of; simp)+
qed

lemma list4: "length xs = 4 \<Longrightarrow> \<exists>a b c d. xs = [a, b, c, d]"
  by (auto simp: eval_nat_numeral length_Suc_conv)

lemma fmt_ipv4_prefix:
  "format_of ''%hu.%hu.%hu.%hu/%d#%d'' =
     [Conv_hu, Lit CHR ''.'', Conv_hu, Lit CHR ''.'', Conv_hu, Lit CHR ''.'', Conv_hu,
      Lit CHR ''/'', Conv_d, Lit CHR ''#'', Conv_d]"
  by simp

lemma snprintf_fits:
  "64 \<le> len \<Longrightarrow>
   snprintf buffer len fmt args = take (nat (len - 1)) (sprintf (format_of fmt) args)"
  by (auto simp: snprintf_def)

lemma net2str_ipv4:
  assumes "type e = SUBNET_IPV4" "ipv4_address e = [a, b, c, d]" "wf_subnet e" "64 \<le> len"
  shows "net2str (Some buf) len (Some e) =
     (True, Some (text_ipv4 a b c d (ipv4_prefixlength e) (weight e)))"
proof -
  have "length (text_ipv4 a b c d (ipv4_prefixlength e) (weight e)) \<le> 39"
    using length_digits_u8(1) [of a] length_digits_u8(1) [of b] length_digits_u8(1) [of c]
      length_digits_u8(1) [of d] length_render_d [of "ipv4_prefixlength e"]
      length_render_d [of "weight e"] assms(3)
    by (simp add: text_ipv4_def wf_subnet_def)
  then have "take (nat (len - 1)) (text_ipv4 a b c d (ipv4_prefixlength e) (weight e)) =
      text_ipv4 a b c d (ipv4_prefixlength e) (weight e)"
    using assms(4) by simp
  then show ?thesis
    using assms(1,2) by (simp add: net2str_def snprintf_fits [OF assms(4)] fmt_ipv4_prefix render_u8 text_ipv4_def)
qed

lemma sscanf_text_ipv4:
  assumes "- (2 ^ 31) \<le> l" "l < 2 ^ 31" "- (2 ^ 31) \<le> w" "w < 2 ^ 31"
  shows "sscanf (text_ipv4 a b c d l w) ''%hu.%hu.%hu.%hu/%d#%d'' =
     (6, [uint a, uint b, uint c, uint d, l, w])"
  using assms
  by (simp add: sscanf_def fmt_ipv4_prefix text_ipv4_def scan_steps convert_u8 convert_d
      del: convert.simps)

lemma fmt_ipv6_prefix:
  "format_of ''%hx:%hx:%hx:%hx:%hx:%hx:%hx:%hx/%d#%d'' =
     [Conv_hx, Lit CHR '':'', Conv_hx, Lit CHR '':'', Conv_hx, Lit CHR '':'', Conv_hx, Lit CHR '':'',
      Conv_hx, Lit CHR '':'', Conv_hx, Lit CHR '':'', Conv_hx, Lit CHR '':'', Conv_hx,
      Lit CHR ''/'', Conv_d, Lit CHR ''#'', Conv_d]"
  by simp

lemma fmt_ipv4_bare:
  "format_of ''%hu.%hu.%hu.%hu#%d'' =
     [Conv_hu, Lit CHR ''.'', Conv_hu, Lit CHR ''.'', Conv_hu, Lit CHR ''.'', Conv_hu,
      Lit CHR ''#'', Conv_d]"
  by simp

lemma fmt_ipv6_bare:
  "format_of ''%hx:%hx:%hx:%hx:%hx:%hx:%hx:%hx#%d'' =
     [Conv_hx, Lit CHR '':'', Conv_hx, Lit CHR '':'', Conv_hx, Lit CHR '':'', Conv_hx, Lit CHR '':'',
      Conv_hx, Lit CHR '':'', Conv_hx, Lit CHR '':'', Conv_hx, Lit CHR '':'', Conv_hx,
      Lit CHR ''#'', Conv_d]"
  by simp

lemma fmt_mac:
  "format_of ''%hx:%hx:%hx:%hx:%hx:%hx#%d'' =
     [Conv_hx, Lit CHR '':'', Conv_hx, Lit CHR '':'', Conv_hx, Lit CHR '':'', Conv_hx, Lit CHR '':'',
      Conv_hx, Lit CHR '':'', Conv_hx, Lit CHR ''#'', Conv_d]"
  by simp

lemmas fmts = fmt_ipv4_prefix fmt_ipv6_prefix fmt_ipv4_bare fmt_ipv6_bare fmt_mac

lemma sscanf_count_le: "fst (sscanf s fmt) \<le> int (length (sscanf_from s (format_of fmt)))"
  by (simp add: sscanf_def Let_def)

text \<open>The decimal formats assign at most one value from hexadecimal text with colons.\<close>

lemma decimal_formats_on_hex_text:
  "\<not> 5 \<le> fst (sscanf (digits_of 16 n @ CHR '':'' # r) ''%hu.%hu.%hu.%hu/%d#%d'')"
  "\<not> 4 \<le> fst (sscanf (digits_of 16 n @ CHR '':'' # r) ''%hu.%hu.%hu.%hu#%d'')"
proof -
  let ?s = "digits_of 16 n @ CHR '':'' # r"
  have "fst (sscanf ?s ''%hu.%hu.%hu.%hu/%d#%d'') \<le> 1"
    using sscanf_count_le [of ?s "''%hu.%hu.%hu.%hu/%d#%d''"]
      hu_on_hex_text [of n r "[Conv_hu, Lit CHR ''.'', Conv_hu, Lit CHR ''.'', Conv_hu,
        Lit CHR ''/'', Conv_d, Lit CHR ''#'', Conv_d]"]
    by (simp only: fmts)
  then show "\<not> 5 \<le> fst (sscanf ?s ''%hu.%hu.%hu.%hu/%d#%d'')" by simp
  have "fst (sscanf ?s ''%hu.%hu.%hu.%hu#%d'') \<le> 1"
    using sscanf_count_le [of ?s "''%hu.%hu.%hu.%hu#%d''"]
      hu_on_hex_text [of n r "[Conv_hu, Lit CHR ''.'', Conv_hu, Lit CHR ''.'', Conv_hu,
        Lit CHR ''#'', Conv_d]"]
    by (simp only: fmts)
  then show "\<not> 4 \<le> fst (sscanf ?s ''%hu.%hu.%hu.%hu#%d'')" by simp
qed

lemma convert_hex: "n < 65536 \<Longrightarrow> convert Conv_hx False n = int n"
  by simp

text \<open>Six hextets, then the end of the text or a \<open>#\<close>.\<close>

lemma sscanf_hex6_others:
  assumes r: "r = [] \<or> (\<exists>r'. r = CHR ''#'' # r')"
  shows
    "\<not> 5 \<le> fst (sscanf (text_hex6 n0 n1 n2 n3 n4 n5 r) ''%hu.%hu.%hu.%hu/%d#%d'')"
    "\<not> 9 \<le> fst (sscanf (text_hex6 n0 n1 n2 n3 n4 n5 r) ''%hx:%hx:%hx:%hx:%hx:%hx:%hx:%hx/%d#%d'')"
    "\<not> 4 \<le> fst (sscanf (text_hex6 n0 n1 n2 n3 n4 n5 r) ''%hu.%hu.%hu.%hu#%d'')"
    "\<not> 8 \<le> fst (sscanf (text_hex6 n0 n1 n2 n3 n4 n5 r) ''%hx:%hx:%hx:%hx:%hx:%hx:%hx:%hx#%d'')"
proof -
  show "\<not> 5 \<le> fst (sscanf (text_hex6 n0 n1 n2 n3 n4 n5 r) ''%hu.%hu.%hu.%hu/%d#%d'')"
    unfolding text_hex6_def by (rule decimal_formats_on_hex_text)
  show "\<not> 4 \<le> fst (sscanf (text_hex6 n0 n1 n2 n3 n4 n5 r) ''%hu.%hu.%hu.%hu#%d'')"
    unfolding text_hex6_def by (rule decimal_formats_on_hex_text)
  show "\<not> 9 \<le> fst (sscanf (text_hex6 n0 n1 n2 n3 n4 n5 r) ''%hx:%hx:%hx:%hx:%hx:%hx:%hx:%hx/%d#%d'')"
    using r by (auto simp: sscanf_def fmts text_hex6_def scan_steps Let_def simp del: convert.simps)
  show "\<not> 8 \<le> fst (sscanf (text_hex6 n0 n1 n2 n3 n4 n5 r) ''%hx:%hx:%hx:%hx:%hx:%hx:%hx:%hx#%d'')"
    using r by (auto simp: sscanf_def fmts text_hex6_def scan_steps Let_def simp del: convert.simps)
qed

lemma sscanf_hex6_bare:
  "sscanf (text_hex6 n0 n1 n2 n3 n4 n5 []) ''%hx:%hx:%hx:%hx:%hx:%hx#%d'' =
     (6, map (convert Conv_hx False) [n0, n1, n2, n3, n4, n5])"
  by (simp add: sscanf_def fmts text_hex6_def scan_steps Let_def del: convert.simps)

lemma sscanf_hex6_weight:
  "- (2 ^ 31) \<le> w \<Longrightarrow> w < 2 ^ 31 \<Longrightarrow>
   sscanf (text_hex6 n0 n1 n2 n3 n4 n5 (CHR ''#'' # render Conv_d w)) ''%hx:%hx:%hx:%hx:%hx:%hx#%d'' =
     (7, map (convert Conv_hx False) [n0, n1, n2, n3, n4, n5] @ [w])"
  by (simp add: sscanf_def fmts text_hex6_def scan_steps convert_d Let_def del: convert.simps)

lemma sscanf_hex8:
  "\<not> 5 \<le> fst (sscanf (text_hex8 ns r) ''%hu.%hu.%hu.%hu/%d#%d'')"
  "- (2 ^ 31) \<le> l \<Longrightarrow> l < 2 ^ 31 \<Longrightarrow> - (2 ^ 31) \<le> w \<Longrightarrow> w < 2 ^ 31 \<Longrightarrow>
   sscanf (text_hex8 ns (CHR ''/'' # render Conv_d l @ CHR ''#'' # render Conv_d w))
      ''%hx:%hx:%hx:%hx:%hx:%hx:%hx:%hx/%d#%d'' =
     (10, map (\<lambda>i. convert Conv_hx False (ns ! i)) [0, 1, 2, 3, 4, 5, 6, 7] @ [l, w])"
proof -
  show "\<not> 5 \<le> fst (sscanf (text_hex8 ns r) ''%hu.%hu.%hu.%hu/%d#%d'')"
    unfolding text_hex8_def by (rule decimal_formats_on_hex_text)
  show "- (2 ^ 31) \<le> l \<Longrightarrow> l < 2 ^ 31 \<Longrightarrow> - (2 ^ 31) \<le> w \<Longrightarrow> w < 2 ^ 31 \<Longrightarrow>
   sscanf (text_hex8 ns (CHR ''/'' # render Conv_d l @ CHR ''#'' # render Conv_d w))
      ''%hx:%hx:%hx:%hx:%hx:%hx:%hx:%hx/%d#%d'' =
     (10, map (\<lambda>i. convert Conv_hx False (ns ! i)) [0, 1, 2, 3, 4, 5, 6, 7] @ [l, w])"
    by (simp add: sscanf_def fmts text_hex8_def scan_steps convert_d Let_def del: convert.simps)
qed

lemma take_Suc_update: "i < length xs \<Longrightarrow> take (Suc i) (xs[i := y]) = take i xs @ [y]"
  by (simp add: take_Suc_conv_app_nth)

lemma mac_bytes_eq:
  "i + length vs \<le> length (mac_address s) \<Longrightarrow>
   mac_bytes vs i s =
     s\<lparr>mac_address := take i (mac_address s) @ map of_int vs @ drop (i + length vs) (mac_address s)\<rparr>"
proof (induction vs arbitrary: i s)
  case Nil
  then show ?case by simp
next
  case (Cons v vs)
  then show ?case by (simp add: take_Suc_update drop_update_cancel)
qed

lemma ipv4_octets_eq:
  "\<forall>v\<in>set vs. v \<le> 255 \<Longrightarrow> i + length vs \<le> length (ipv4_address s) \<Longrightarrow>
   ipv4_octets vs i s =
     (True, s\<lparr>ipv4_address :=
        take i (ipv4_address s) @ map of_int vs @ drop (i + length vs) (ipv4_address s)\<rparr>)"
proof (induction vs arbitrary: i s)
  case Nil
  then show ?case by simp
next
  case (Cons v vs)
  then show ?case by (simp add: take_Suc_update drop_update_cancel)
qed

lemma take_Suc_Suc_update:
  "Suc i < length xs \<Longrightarrow> take (Suc (Suc i)) (xs[i := y, Suc i := z]) = take i xs @ [y, z]"
  by (simp add: take_Suc_conv_app_nth [of "Suc i"] take_Suc_conv_app_nth [of i] nth_list_update)

lemma ipv6_hextets_eq:
  "2 * (i + length vs) \<le> length (ipv6_address s) \<Longrightarrow>
   ipv6_hextets vs i s =
     s\<lparr>ipv6_address :=
        take (2 * i) (ipv6_address s) @ concat (map (\<lambda>v. [of_int (v div 256), of_int v]) vs)
          @ drop (2 * (i + length vs)) (ipv6_address s)\<rparr>"
proof (induction vs arbitrary: i s)
  case Nil
  then show ?case by simp
next
  case (Cons v vs)
  then show ?case by (simp add: take_Suc_Suc_update drop_update_cancel)
qed

lemma str2net_hex6_bare:
  assumes "length (mac_address t) = 6"
  shows "str2net t (text_hex6 n0 n1 n2 n3 n4 n5 []) =
     (True, t\<lparr>type := SUBNET_MAC, weight := 10,
              mac_address := map (\<lambda>n. of_int (convert Conv_hx False n)) [n0, n1, n2, n3, n4, n5]\<rparr>)"
  using assms
  by (simp add: str2net_def split_beta Let_def sscanf_hex6_others sscanf_hex6_bare mac_bytes_eq
      del: convert.simps mac_bytes.simps)

lemma str2net_hex6_weight:
  assumes "length (mac_address t) = 6" "- (2 ^ 31) \<le> w" "w < 2 ^ 31"
  shows "str2net t (text_hex6 n0 n1 n2 n3 n4 n5 (CHR ''#'' # render Conv_d w)) =
     (True, t\<lparr>type := SUBNET_MAC, weight := w,
              mac_address := map (\<lambda>n. of_int (convert Conv_hx False n)) [n0, n1, n2, n3, n4, n5]\<rparr>)"
  using assms
  by (simp add: str2net_def split_beta Let_def sscanf_hex6_others sscanf_hex6_weight mac_bytes_eq
      del: convert.simps mac_bytes.simps)

lemma str2net_text_ipv4:
  assumes "length (ipv4_address t) = 4" "0 \<le> l" "l \<le> 32" "- (2 ^ 31) \<le> w" "w < 2 ^ 31"
  shows "str2net t (text_ipv4 a b c d l w) =
     (True, t\<lparr>type := SUBNET_IPV4, ipv4_prefixlength := l, weight := w,
              ipv4_address := [a, b, c, d]\<rparr>)"
  using assms
  by (simp add: str2net_def split_beta Let_def sscanf_text_ipv4 ipv4_octets_eq uint_u8_bounds
      del: convert.simps ipv4_octets.simps)

lemma str2net_text_ipv6:
  assumes "length (ipv6_address t) = 16" "0 \<le> l" "l \<le> 128" "- (2 ^ 31) \<le> w" "w < 2 ^ 31"
  shows "str2net t (text_hex8 ns (CHR ''/'' # render Conv_d l @ CHR ''#'' # render Conv_d w)) =
     (True, t\<lparr>type := SUBNET_IPV6, ipv6_prefixlength := l, weight := w,
              ipv6_address := concat (map (\<lambda>i. [of_int (convert Conv_hx False (ns ! i) div 256),
                   of_int (convert Conv_hx False (ns ! i))]) [0, 1, 2, 3, 4, 5, 6, 7])\<rparr>)"
  using assms
  by (simp add: str2net_def split_beta Let_def sscanf_hex8 ipv6_hextets_eq
      del: convert.simps ipv6_hextets.simps)

lemma list6: "length xs = 6 \<Longrightarrow> \<exists>a b c d e f. xs = [a, b, c, d, e, f]"
  by (auto simp: eval_nat_numeral length_Suc_conv)

lemma list16:
  "length xs = 16 \<Longrightarrow> \<exists>x0 x1 x2 x3 x4 x5 x6 x7 x8 x9 x10 x11 x12 x13 x14 x15.
     xs = [x0, x1, x2, x3, x4, x5, x6, x7, x8, x9, x10, x11, x12, x13, x14, x15]"
  by (auto simp: eval_nat_numeral length_Suc_conv)

lemma strcmp_refl: "strcmp a a = 0"
  by (induction a) simp_all

lemma hextet_bounds:
  "0 \<le> 256 * uint (hi :: u8) + uint (lo :: u8)" "256 * uint (hi :: u8) + uint (lo :: u8) < 65536"
  using uint_u8_bounds [of hi] uint_u8_bounds [of lo] by simp_all

lemma hextet_render:
  "render Conv_hx (256 * uint (hi :: u8) + uint (lo :: u8)) = digits_of 16 (nat (256 * uint hi + uint lo))"
  using hextet_bounds [of hi lo] by (simp add: render.simps)

lemma hextet_convert:
  "convert Conv_hx False (nat (256 * uint (hi :: u8) + uint (lo :: u8))) = 256 * uint hi + uint lo"
  using hextet_bounds [of hi lo] by simp

lemma hextet_bytes:
  "word_of_int ((256 * uint (hi :: u8) + uint (lo :: u8)) div 256) = hi"
  "word_of_int (256 * uint (hi :: u8) + uint (lo :: u8)) = lo"
proof -
  have "(256 * uint hi + uint lo) div 256 = uint hi"
    using uint_u8_bounds [of lo] by simp
  then show "word_of_int ((256 * uint hi + uint lo) div 256) = hi" by simp
  have "(word_of_int (256 * uint hi + uint lo) :: u8) = 256 * hi + lo" by simp
  also have "(256 :: u8) = 0" by simp
  finally show "word_of_int (256 * uint hi + uint lo) = lo" by simp
qed

lemma length_digits_hextet: "n < 65536 \<Longrightarrow> length (digits_of 16 n) \<le> 4"
  by (rule length_digits_of) simp_all

lemma net2str_mac:
  assumes "type e = SUBNET_MAC" "mac_address e = [m0, m1, m2, m3, m4, m5]" "wf_subnet e" "64 \<le> len"
  shows "net2str (Some buf) len (Some e) =
     (True, Some (text_hex6 (unat m0) (unat m1) (unat m2) (unat m3) (unat m4) (unat m5)
       (CHR ''#'' # render Conv_d (weight e))))"
    (is "_ = (True, Some ?text)")
proof -
  have "length ?text \<le> 63"
    using length_digits_u8(2) [of m0] length_digits_u8(2) [of m1] length_digits_u8(2) [of m2]
      length_digits_u8(2) [of m3] length_digits_u8(2) [of m4] length_digits_u8(2) [of m5]
      length_render_d [of "weight e"] assms(3)
    by (simp add: text_hex6_def wf_subnet_def)
  then have "take (nat (len - 1)) ?text = ?text"
    using assms(4) by simp
  then show ?thesis
    using assms(1,2) by (simp add: net2str_def snprintf_fits [OF assms(4)] fmts render_u8 text_hex6_def)
qed

lemma hextet_of_less: "hextet_of hi lo < 65536"
  using hextet_bounds [of hi lo] by (simp add: hextet_of_def)

lemma hextet_of_render:
  "render Conv_hx (256 * uint (hi :: u8) + uint (lo :: u8)) = digits_of 16 (hextet_of hi lo)"
  by (simp add: hextet_render hextet_of_def)

lemma hextet_of_bytes:
  "word_of_int (convert Conv_hx False (hextet_of hi lo) div 256) = hi"
  "word_of_int (convert Conv_hx False (hextet_of hi lo)) = lo"
  unfolding hextet_of_def hextet_convert by (rule hextet_bytes)+

lemma tail_zero:
  "weight a = weight b \<Longrightarrow> owner a = None \<or> owner a = owner b \<Longrightarrow>
   compare_weight_owner ns a b = 0"
  by (auto simp: compare_weight_owner_def Let_def int_sub_def wrap_int_def strcmp_refl)

lemma net2str_ipv6:
  assumes "type e = SUBNET_IPV6"
    "ipv6_address e = [x0, x1, x2, x3, x4, x5, x6, x7, x8, x9, x10, x11, x12, x13, x14, x15]"
    "wf_subnet e" "64 \<le> len"
  shows "net2str (Some buf) len (Some e) =
     (True, Some (text_hex8 [hextet_of x0 x1, hextet_of x2 x3, hextet_of x4 x5, hextet_of x6 x7,
                hextet_of x8 x9, hextet_of x10 x11, hextet_of x12 x13, hextet_of x14 x15]
       (CHR ''/'' # render Conv_d (ipv6_prefixlength e) @ CHR ''#'' # render Conv_d (weight e))))"
    (is "_ = (True, Some ?text)")
proof -
  have h: "\<And>hi lo :: u8. length (digits_of 16 (hextet_of hi lo)) \<le> 4"
    by (intro length_digits_hextet hextet_of_less)
  have "length ?text \<le> 63"
    using h [of x0 x1] h [of x2 x3] h [of x4 x5] h [of x6 x7] h [of x8 x9] h [of x10 x11]
      h [of x12 x13] h [of x14 x15]
      length_render_d [of "weight e"] length_render_d [of "ipv6_prefixlength e"] assms(3)
    by (simp add: text_hex8_def wf_subnet_def)
  then have "take (nat (len - 1)) ?text = ?text"
    using assms(4) by simp
  then show ?thesis
    using assms(1,2)
    by (simp add: net2str_def snprintf_fits [OF assms(4)] fmts ntohs_at_def hextet_of_render text_hex8_def)
qed

lemma roundtrip_mac:
  assumes e: "type e = SUBNET_MAC" "wf_subnet e" and t: "wf_subnet t" and len: "64 \<le> len"
  shows "\<exists>text. net2str (Some buf) len (Some e) = (True, Some text) \<and>
     str2net t text =
       (True, t\<lparr>type := SUBNET_MAC, weight := weight e, mac_address := mac_address e\<rparr>)"
proof -
  from e(2) obtain m0 m1 m2 m3 m4 m5 where m: "mac_address e = [m0, m1, m2, m3, m4, m5]"
    using list6 [of "mac_address e"] by (auto simp: wf_subnet_def)
  show ?thesis
    using e t
    by (simp add: net2str_mac [OF e(1) m e(2) len] str2net_hex6_weight wf_subnet_def m convert_u8
        del: convert.simps)
qed

lemma roundtrip_ipv4:
  assumes e: "type e = SUBNET_IPV4" "valid_subnet e" and t: "wf_subnet t" and len: "64 \<le> len"
  shows "\<exists>text. net2str (Some buf) len (Some e) = (True, Some text) \<and>
     str2net t text =
       (True, t\<lparr>type := SUBNET_IPV4, ipv4_prefixlength := ipv4_prefixlength e, weight := weight e,
                ipv4_address := ipv4_address e\<rparr>)"
proof -
  from e(2) have w: "wf_subnet e" by (simp add: valid_subnet_def)
  then obtain a b c d where m: "ipv4_address e = [a, b, c, d]"
    using list4 [of "ipv4_address e"] by (auto simp: wf_subnet_def)
  show ?thesis
    using e t w
    by (simp add: net2str_ipv4 [OF e(1) m w len] str2net_text_ipv4 wf_subnet_def valid_subnet_def m)
qed

lemma roundtrip_ipv6:
  assumes e: "type e = SUBNET_IPV6" "valid_subnet e" and t: "wf_subnet t" and len: "64 \<le> len"
  shows "\<exists>text. net2str (Some buf) len (Some e) = (True, Some text) \<and>
     str2net t text =
       (True, t\<lparr>type := SUBNET_IPV6, ipv6_prefixlength := ipv6_prefixlength e, weight := weight e,
                ipv6_address := ipv6_address e\<rparr>)"
proof -
  from e(2) have w: "wf_subnet e" by (simp add: valid_subnet_def)
  then obtain x0 x1 x2 x3 x4 x5 x6 x7 x8 x9 x10 x11 x12 x13 x14 x15 where
    m: "ipv6_address e = [x0, x1, x2, x3, x4, x5, x6, x7, x8, x9, x10, x11, x12, x13, x14, x15]"
    using list16 [of "ipv6_address e"] by (auto simp: wf_subnet_def)
  show ?thesis
    using e t w
    by (simp add: net2str_ipv6 [OF e(1) m w len] str2net_text_ipv6 wf_subnet_def valid_subnet_def m
        hextet_of_bytes del: convert.simps)
qed

lemma compare_parsed:
  assumes "owner t = None \<or> owner t = owner e"
    and "p = t\<lparr>type := type e, weight := weight e\<rparr> \<or>
         p = t\<lparr>type := type e, weight := weight e, mac_address := mac_address e\<rparr> \<and> type e = SUBNET_MAC \<or>
         p = t\<lparr>type := type e, ipv4_prefixlength := ipv4_prefixlength e, weight := weight e,
               ipv4_address := ipv4_address e\<rparr> \<and> type e = SUBNET_IPV4 \<or>
         p = t\<lparr>type := type e, ipv6_prefixlength := ipv6_prefixlength e, weight := weight e,
               ipv6_address := ipv6_address e\<rparr> \<and> type e = SUBNET_IPV6"
    and "type e = SUBNET_MAC \<longrightarrow> mac_address p = mac_address e"
    and "type e = SUBNET_IPV4 \<longrightarrow> ipv4_address p = ipv4_address e \<and> ipv4_prefixlength p = ipv4_prefixlength e"
    and "type e = SUBNET_IPV6 \<longrightarrow> ipv6_address p = ipv6_address e \<and> ipv6_prefixlength p = ipv6_prefixlength e"
  shows "subnet_compare ns p e = 0"
proof -
  from assms(2) have k: "type p = type e" "weight p = weight e" "owner p = owner t" by auto
  have "compare_weight_owner ns p e = 0"
    using assms(1) k by (intro tail_zero) simp_all
  with k(1) assms(3-5) show ?thesis
    by (cases "type e")
       (simp_all add: subnet_compare_def subnet_compare_mac_def subnet_compare_ipv4_def
          subnet_compare_ipv6_def Let_def memcmp_refl int_sub_def wrap_int_def)
qed

text \<open>
  Claim C6. For a valid entry \<open>e\<close> of any of the three kinds, \<open>net2str\<close> into
  a buffer of at least 64 bytes (\<open>MAXNETSTR\<close>) returns true and leaves a text
  that \<open>str2net\<close> parses, into a target without owner (a fresh or zeroed
  entry) or with the owner of \<open>e\<close>, to an entry that compares equal to \<open>e\<close>
  under \<open>subnet_compare\<close> and has the kind and the weight of \<open>e\<close>.
\<close>

theorem format_parse_roundtrip:
  assumes "valid_subnet e" "wf_subnet t" "owner t = None \<or> owner t = owner e" "64 \<le> len"
  shows "\<exists>text. net2str (Some buf) len (Some e) = (True, Some text) \<and>
         fst (str2net t text) \<and>
         subnet_compare ns (snd (str2net t text)) e = 0 \<and>
         type (snd (str2net t text)) = type e \<and>
         weight (snd (str2net t text)) = weight e"
proof (cases "type e")
  case SUBNET_MAC
  from assms(1) have "wf_subnet e" by (simp add: valid_subnet_def)
  from roundtrip_mac [OF SUBNET_MAC this assms(2,4), of buf] obtain str where
    r: "net2str (Some buf) len (Some e) = (True, Some str)"
      "str2net t str = (True, t\<lparr>type := SUBNET_MAC, weight := weight e, mac_address := mac_address e\<rparr>)"
    by blast
  have "subnet_compare ns (snd (str2net t str)) e = 0"
    using assms(3) SUBNET_MAC by (intro compare_parsed [of t]) (simp_all add: r)
  with r SUBNET_MAC show ?thesis by simp
next
  case SUBNET_IPV4
  from roundtrip_ipv4 [OF SUBNET_IPV4 assms(1,2,4), of buf] obtain str where
    r: "net2str (Some buf) len (Some e) = (True, Some str)"
      "str2net t str =
        (True, t\<lparr>type := SUBNET_IPV4, ipv4_prefixlength := ipv4_prefixlength e, weight := weight e,
                 ipv4_address := ipv4_address e\<rparr>)"
    by blast
  have "subnet_compare ns (snd (str2net t str)) e = 0"
    using assms(3) SUBNET_IPV4 by (intro compare_parsed [of t]) (simp_all add: r)
  with r SUBNET_IPV4 show ?thesis by simp
next
  case SUBNET_IPV6
  from roundtrip_ipv6 [OF SUBNET_IPV6 assms(1,2,4), of buf] obtain str where
    r: "net2str (Some buf) len (Some e) = (True, Some str)"
      "str2net t str =
        (True, t\<lparr>type := SUBNET_IPV6, ipv6_prefixlength := ipv6_prefixlength e, weight := weight e,
                 ipv6_address := ipv6_address e\<rparr>)"
    by blast
  have "subnet_compare ns (snd (str2net t str)) e = 0"
    using assms(3) SUBNET_IPV6 by (intro compare_parsed [of t]) (simp_all add: r)
  with r SUBNET_IPV6 show ?thesis by simp
qed

section \<open>Claims on the order and the codec\<close>

lemmas scan_eval = sscanf_def scan_number_def scan_sign_def scan_0x_def isspace_def is_digit_of_def
  isdigit_def isxdigit_def digits_value_def digit_val_def wrap_int_def Let_def

lemmas print_eval = net2str_def snprintf_def render.simps digits_of.simps digit_char_def char_of_eq_iff

lemmas compare_eval = subnet_compare_def subnet_compare_mac_def subnet_compare_ipv4_def
  subnet_compare_ipv6_def compare_weight_owner_def int_sub_def wrap_int_def Let_def

lemma compare_by_kind:
  assumes "type a \<noteq> type b"
  shows "subnet_compare ns a b \<noteq> 0"
    and "(subnet_compare ns a b < 0) = (type_num (type a) < type_num (type b))"
  using assms by (simp_all add: subnet_compare_def Let_def type_num_eq)

text \<open>
  Claim C7, as the code has it. On valid entries that have an owner and a
  weight between \<open>-2^30\<close> and \<open>2^30\<close>, \<open>subnet_compare\<close> is a total order up
  to its own equality: \<open>a < b\<close> exactly when \<open>b > a\<close>, \<open>a = b\<close> exactly when
  \<open>b = a\<close>, and \<open>\<le>\<close>, \<open><\<close> and \<open>=\<close> are transitive. The kind decides
  first: entries of different kinds never compare equal, and MAC is before
  IPv4, IPv4 before IPv6. Within one kind it is the order of the spec: prefix
  length descending, then the address bytes, then the weight ascending, then
  the owner's name.
\<close>

theorem subnet_compare_total_order:
  assumes "ordered_entry a" "ordered_entry b" "ordered_entry c"
  shows "(subnet_compare ns a b < 0 \<longleftrightarrow> 0 < subnet_compare ns b a) \<and>
         (subnet_compare ns a b = 0 \<longleftrightarrow> subnet_compare ns b a = 0) \<and>
         (subnet_compare ns a b \<le> 0 \<and> subnet_compare ns b c \<le> 0 \<longrightarrow> subnet_compare ns a c \<le> 0) \<and>
         (subnet_compare ns a b < 0 \<and> subnet_compare ns b c < 0 \<longrightarrow> subnet_compare ns a c < 0) \<and>
         (subnet_compare ns a b = 0 \<and> subnet_compare ns b c = 0 \<longrightarrow> subnet_compare ns a c = 0) \<and>
         (type a \<noteq> type b \<longrightarrow>
            subnet_compare ns a b \<noteq> 0 \<and>
            (subnet_compare ns a b < 0 \<longleftrightarrow> type_num (type a) < type_num (type b))) \<and>
         (type a = type b \<longrightarrow> (subnet_compare ns a b < 0 \<longleftrightarrow> spec_less ns a b))"
proof -
  note o = order_subnet_compare [of ns]
  have 1: "subnet_compare ns a b < 0 \<longleftrightarrow> 0 < subnet_compare ns b a"
    by (rule ordering_on_sym [OF o assms(1,2)])
  have 2: "subnet_compare ns a b = 0 \<longleftrightarrow> subnet_compare ns b a = 0"
    by (rule ordering_on_zero [OF o assms(1,2)])
  have 3: "subnet_compare ns a b \<le> 0 \<and> subnet_compare ns b c \<le> 0 \<longrightarrow> subnet_compare ns a c \<le> 0"
    using ordering_on_trans [OF o assms] by blast
  have 4: "subnet_compare ns a b < 0 \<and> subnet_compare ns b c < 0 \<longrightarrow> subnet_compare ns a c < 0"
    using ordering_on_trans_less1 [OF o assms] by force
  have 5: "subnet_compare ns a b = 0 \<and> subnet_compare ns b c = 0 \<longrightarrow> subnet_compare ns a c = 0"
  proof
    assume e: "subnet_compare ns a b = 0 \<and> subnet_compare ns b c = 0"
    then have "subnet_compare ns a c \<le> 0" using ordering_on_trans [OF o assms] by simp
    moreover from e have "subnet_compare ns c b = 0" "subnet_compare ns b a = 0"
      using ordering_on_zero [OF o assms(2,3)] ordering_on_zero [OF o assms(1,2)] by simp_all
    then have "subnet_compare ns c a \<le> 0"
      using ordering_on_trans [OF o assms(3,2,1)] by simp
    ultimately show "subnet_compare ns a c = 0"
      using ordering_on_sym [OF o assms(1,3)] by linarith
  qed
  have 6: "type a = type b \<longrightarrow> (subnet_compare ns a b < 0 \<longleftrightarrow> spec_less ns a b)"
    using compare_is_spec_less [OF assms(1,2)] by blast
  have 7: "type a \<noteq> type b \<longrightarrow>
            subnet_compare ns a b \<noteq> 0 \<and>
            (subnet_compare ns a b < 0 \<longleftrightarrow> type_num (type a) < type_num (type b))"
    using compare_by_kind [of a b ns] by blast
  from 1 2 3 4 5 6 7 show ?thesis by blast
qed

text \<open>
  Instance of the theorem for C7: 10.0.0.0/24 of B, then 10.0.0.0/16 of A with
  weight 5, then 10.0.0.0/16 of C with weight 10; and across the kinds the MAC
  entry 0:1:2:3:4:5, then 10.0.0.0/24, then fd00::/16.
\<close>

theorem subnet_compare_total_order_witness:
  "ordered_entry (ex_net24\<lparr>owner := Some 2\<rparr>) \<and>
   ordered_entry (ipv4_net [10, 0, 0, 0] 16 5\<lparr>owner := Some 1\<rparr>) \<and>
   ordered_entry (ex_net16\<lparr>owner := Some 3\<rparr>) \<and>
   subnet_compare ex_nodes (ex_net24\<lparr>owner := Some 2\<rparr>) (ipv4_net [10, 0, 0, 0] 16 5\<lparr>owner := Some 1\<rparr>) < 0 \<and>
   subnet_compare ex_nodes (ipv4_net [10, 0, 0, 0] 16 5\<lparr>owner := Some 1\<rparr>) (ex_net16\<lparr>owner := Some 3\<rparr>) < 0 \<and>
   subnet_compare ex_nodes (ex_net24\<lparr>owner := Some 2\<rparr>) (ex_net16\<lparr>owner := Some 3\<rparr>) < 0 \<and>
   0 < subnet_compare ex_nodes (ipv4_net [10, 0, 0, 0] 16 5\<lparr>owner := Some 1\<rparr>) (ex_net24\<lparr>owner := Some 2\<rparr>) \<and>
   spec_less ex_nodes (ex_net24\<lparr>owner := Some 2\<rparr>) (ipv4_net [10, 0, 0, 0] 16 5\<lparr>owner := Some 1\<rparr>) \<and>
   ordered_entry (mac_net [0, 1, 2, 3, 4, 5] 10\<lparr>owner := Some 1\<rparr>) \<and>
   ordered_entry (ex_v6net16\<lparr>owner := Some 2\<rparr>) \<and>
   subnet_compare ex_nodes (mac_net [0, 1, 2, 3, 4, 5] 10\<lparr>owner := Some 1\<rparr>) (ex_net24\<lparr>owner := Some 2\<rparr>) < 0 \<and>
   subnet_compare ex_nodes (ex_net24\<lparr>owner := Some 2\<rparr>) (ex_v6net16\<lparr>owner := Some 2\<rparr>) < 0 \<and>
   subnet_compare ex_nodes (mac_net [0, 1, 2, 3, 4, 5] 10\<lparr>owner := Some 1\<rparr>) (ex_v6net16\<lparr>owner := Some 2\<rparr>) < 0"
proof -
  have o: "ordered_entry (ex_net24\<lparr>owner := Some 2\<rparr>)"
    "ordered_entry (ipv4_net [10, 0, 0, 0] 16 5\<lparr>owner := Some 1\<rparr>)"
    "ordered_entry (ex_net16\<lparr>owner := Some 3\<rparr>)"
    by (simp_all add: ordered_entry_def valid_subnet_def wf_subnet_def ipv4_net_def new_subnet_def)
  have k: "ordered_entry (mac_net [0, 1, 2, 3, 4, 5] 10\<lparr>owner := Some 1\<rparr>)"
    "ordered_entry (ex_v6net16\<lparr>owner := Some 2\<rparr>)"
    by (simp_all add: ordered_entry_def valid_subnet_def wf_subnet_def mac_net_def ipv6_net_def new_subnet_def)
  have l: "subnet_compare ex_nodes (ex_net24\<lparr>owner := Some 2\<rparr>) (ipv4_net [10, 0, 0, 0] 16 5\<lparr>owner := Some 1\<rparr>) < 0"
    "subnet_compare ex_nodes (ipv4_net [10, 0, 0, 0] 16 5\<lparr>owner := Some 1\<rparr>) (ex_net16\<lparr>owner := Some 3\<rparr>) < 0"
    by (simp_all add: compare_eval ipv4_net_def new_subnet_def)
  have t: "type (ex_net24\<lparr>owner := Some 2\<rparr>) = type (ipv4_net [10, 0, 0, 0] 16 5\<lparr>owner := Some 1\<rparr>)"
    by (simp add: ipv4_net_def)
  from subnet_compare_total_order [OF o, of ex_nodes] l t
  have r: "subnet_compare ex_nodes (ex_net24\<lparr>owner := Some 2\<rparr>) (ex_net16\<lparr>owner := Some 3\<rparr>) < 0"
    "0 < subnet_compare ex_nodes (ipv4_net [10, 0, 0, 0] 16 5\<lparr>owner := Some 1\<rparr>) (ex_net24\<lparr>owner := Some 2\<rparr>)"
    "spec_less ex_nodes (ex_net24\<lparr>owner := Some 2\<rparr>) (ipv4_net [10, 0, 0, 0] 16 5\<lparr>owner := Some 1\<rparr>)"
    by blast+
  have t2: "type (mac_net [0, 1, 2, 3, 4, 5] 10\<lparr>owner := Some 1\<rparr>) \<noteq> type (ex_net24\<lparr>owner := Some 2\<rparr>)"
    "type_num (type (mac_net [0, 1, 2, 3, 4, 5] 10\<lparr>owner := Some 1\<rparr>)) < type_num (type (ex_net24\<lparr>owner := Some 2\<rparr>))"
    "type (ex_net24\<lparr>owner := Some 2\<rparr>) \<noteq> type (ex_v6net16\<lparr>owner := Some 2\<rparr>)"
    "type_num (type (ex_net24\<lparr>owner := Some 2\<rparr>)) < type_num (type (ex_v6net16\<lparr>owner := Some 2\<rparr>))"
    by (simp_all add: mac_net_def ipv4_net_def ipv6_net_def)
  from subnet_compare_total_order [OF k(1) o(1) k(2), of ex_nodes] t2
  have m1: "subnet_compare ex_nodes (mac_net [0, 1, 2, 3, 4, 5] 10\<lparr>owner := Some 1\<rparr>) (ex_net24\<lparr>owner := Some 2\<rparr>) < 0"
    by blast
  from subnet_compare_total_order [OF o(1) k(2) k(2), of ex_nodes] t2
  have m2: "subnet_compare ex_nodes (ex_net24\<lparr>owner := Some 2\<rparr>) (ex_v6net16\<lparr>owner := Some 2\<rparr>) < 0"
    by blast
  from subnet_compare_total_order [OF k(1) o(1) k(2), of ex_nodes] m1 m2
  have m3: "subnet_compare ex_nodes (mac_net [0, 1, 2, 3, 4, 5] 10\<lparr>owner := Some 1\<rparr>) (ex_v6net16\<lparr>owner := Some 2\<rparr>) < 0"
    by blast
  from o k l r m1 m2 m3 show ?thesis by blast
qed

text \<open>
  Claim C7 as stated fails: the comparison is not a total order on all Route
  Entries. An entry without owner (a lookup probe) compares equal to the entry
  of B and to the entry of A with the same key, and these two are not equal:
  \<open>\<le>\<close> is not transitive.
\<close>

theorem subnet_compare_not_transitive:
  "subnet_compare ex_nodes (ex_net24\<lparr>owner := Some 2\<rparr>) (ex_net24\<lparr>owner := None\<rparr>) = 0 \<and>
   subnet_compare ex_nodes (ex_net24\<lparr>owner := None\<rparr>) (ex_net24\<lparr>owner := Some 1\<rparr>) = 0 \<and>
   0 < subnet_compare ex_nodes (ex_net24\<lparr>owner := Some 2\<rparr>) (ex_net24\<lparr>owner := Some 1\<rparr>)"
  by (simp add: compare_eval ipv4_net_def new_subnet_def ex_nodes_def)

text \<open>
  Beside C7: the difference of two weights can leave the range of \<open>int\<close>.
  With the weights \<open>-2^31\<close>, 0 and \<open>2^31 - 1\<close> of one owner the comparison says
  \<open>a < b\<close>, \<open>b < c\<close> and \<open>a > c\<close>.
\<close>

lemma weight_difference_wraps:
  "subnet_compare ex_nodes (ipv4_net [10, 0, 0, 0] 24 (- (2 ^ 31))\<lparr>owner := Some 1\<rparr>)
       (ipv4_net [10, 0, 0, 0] 24 0\<lparr>owner := Some 1\<rparr>) < 0 \<and>
   subnet_compare ex_nodes (ipv4_net [10, 0, 0, 0] 24 0\<lparr>owner := Some 1\<rparr>)
       (ipv4_net [10, 0, 0, 0] 24 (2 ^ 31 - 1)\<lparr>owner := Some 1\<rparr>) < 0 \<and>
   0 < subnet_compare ex_nodes (ipv4_net [10, 0, 0, 0] 24 (- (2 ^ 31))\<lparr>owner := Some 1\<rparr>)
       (ipv4_net [10, 0, 0, 0] 24 (2 ^ 31 - 1)\<lparr>owner := Some 1\<rparr>)"
  by (simp add: compare_eval ipv4_net_def new_subnet_def ex_nodes_def)

text \<open>
  Instance of C6: the entry 10.0.0.0/24 of B with weight 10 is written as
  \<open>10.0.0.0/24#10\<close> and parsed into a fresh entry that compares equal to it.
\<close>

theorem format_parse_roundtrip_witness:
  "valid_subnet (ex_net24\<lparr>owner := Some 2\<rparr>) \<and> wf_subnet new_subnet \<and> owner new_subnet = None \<and>
   net2str (Some []) 64 (Some (ex_net24\<lparr>owner := Some 2\<rparr>)) = (True, Some ''10.0.0.0/24#10'') \<and>
   fst (str2net new_subnet ''10.0.0.0/24#10'') \<and>
   subnet_compare ex_nodes (snd (str2net new_subnet ''10.0.0.0/24#10'')) (ex_net24\<lparr>owner := Some 2\<rparr>) = 0"
proof -
  have v: "valid_subnet (ex_net24\<lparr>owner := Some 2\<rparr>)" "wf_subnet new_subnet" "owner new_subnet = None"
    by (simp_all add: valid_subnet_def wf_subnet_def ipv4_net_def new_subnet_def)
  have n: "net2str (Some []) 64 (Some (ex_net24\<lparr>owner := Some 2\<rparr>)) = (True, Some ''10.0.0.0/24#10'')"
    by (simp add: print_eval ipv4_net_def new_subnet_def)
  show ?thesis
    using format_parse_roundtrip [of "ex_net24\<lparr>owner := Some 2\<rparr>" new_subnet 64 "[]" ex_nodes] v
    by (simp add: n)
qed

section \<open>Claims on parsing\<close>

lemma low_byte: "(word_of_nat (n mod 256) :: u8) = word_of_nat n"
proof -
  have "(word_of_nat (n mod 256) :: u8) = word_of_nat (n mod 2 ^ LENGTH(8))" by simp
  also have "\<dots> = word_of_nat n"
    by (simp only: word_of_nat_eq_iff take_bit_eq_mod [symmetric] take_bit_take_bit)
  finally show ?thesis .
qed

text \<open>
  Claim C10. Six hexadecimal numbers below \<open>2^16\<close> with colons between them
  parse as a MAC entry whatever their values: no range is checked, the weight
  is the default 10, and each address byte is the number modulo 256.
\<close>

theorem mac_hextets_keep_low_byte:
  assumes "length (mac_address t) = 6"
    and "n0 < 65536" "n1 < 65536" "n2 < 65536" "n3 < 65536" "n4 < 65536" "n5 < 65536"
  shows "str2net t (text_hex6 n0 n1 n2 n3 n4 n5 []) =
     (True, t\<lparr>type := SUBNET_MAC, weight := 10,
              mac_address := map (\<lambda>n. word_of_nat (n mod 256)) [n0, n1, n2, n3, n4, n5]\<rparr>)"
  using assms
  by (simp add: str2net_hex6_bare convert_hex low_byte del: convert.simps)

text \<open>
  Instance of C10, the example of the claim: the hextets \<open>1ff\<close> and \<open>ff\<close> give
  the same address byte 255.
\<close>

theorem mac_hextets_keep_low_byte_witness:
  "text_hex6 511 0 0 0 0 0 [] = ''1ff:0:0:0:0:0'' \<and>
   text_hex6 255 0 0 0 0 0 [] = ''ff:0:0:0:0:0'' \<and>
   str2net new_subnet ''1ff:0:0:0:0:0'' =
     (True, new_subnet\<lparr>type := SUBNET_MAC, weight := 10, mac_address := [255, 0, 0, 0, 0, 0]\<rparr>) \<and>
   str2net new_subnet ''ff:0:0:0:0:0'' =
     (True, new_subnet\<lparr>type := SUBNET_MAC, weight := 10, mac_address := [255, 0, 0, 0, 0, 0]\<rparr>)"
proof -
  have t: "text_hex6 511 0 0 0 0 0 [] = ''1ff:0:0:0:0:0''" "text_hex6 255 0 0 0 0 0 [] = ''ff:0:0:0:0:0''"
    by (simp_all add: text_hex6_def digits_of.simps digit_char_def char_of_eq_iff)
  have l: "length (mac_address new_subnet) = 6" by (simp add: new_subnet_def)
  from mac_hextets_keep_low_byte [OF l, of 511 0 0 0 0 0] mac_hextets_keep_low_byte [OF l, of 255 0 0 0 0 0]
  show ?thesis by (simp add: t)
qed

lemma sscanf_from_conv:
  "is_conv cv \<Longrightarrow> sscanf_from s (cv # fmt) =
     (case scan_number (base_of cv) s of None \<Rightarrow> []
      | Some (neg, m, s') \<Rightarrow> convert cv neg m # sscanf_from s' fmt)"
  by (cases cv) (simp_all split: option.splits)




lemma fmt_quad:
  "format_of ''%hu.%hu.%hu.%hu'' =
     [Conv_hu, Lit CHR ''.'', Conv_hu, Lit CHR ''.'', Conv_hu, Lit CHR ''.'', Conv_hu]"
  by simp






lemma sscanf_count_pos: "0 \<le> fst (sscanf s fmt) \<Longrightarrow> fst (sscanf s fmt) = int (length (snd (sscanf s fmt)))"
  by (simp add: sscanf_def Let_def split: if_splits)


















lemma scan_sign_split:
  "scan_sign s = (neg, s2) \<Longrightarrow> \<exists>sg. s = sg @ s2 \<and> sg \<in> {[], ''-'', ''+''}"
  by (cases s) (auto simp: scan_sign_def split: if_splits)

lemma scan_0x_split:
  "scan_0x s = (pre, s3) \<Longrightarrow>
   \<exists>px. s = px @ s3 \<and> (px = [] \<and> \<not> pre \<or> px \<in> {''0x'', ''0X''} \<and> pre)"
proof (cases s)
  case Nil
  moreover assume "scan_0x s = (pre, s3)"
  ultimately show ?thesis by (simp add: scan_0x_def)
next
  case 1: (Cons c0 s')
  assume a: "scan_0x s = (pre, s3)"
  show ?thesis
  proof (cases s')
    case Nil
    with 1 a show ?thesis by (simp add: scan_0x_def)
  next
    case (Cons cx r)
    with 1 a show ?thesis by (auto simp: scan_0x_def split: if_splits)
  qed
qed

lemma scan_number_token:
  assumes "scan_number base s = Some (neg, m, r)"
  shows "\<exists>tok. s = tok @ r \<and> number_token base tok"
proof -
  obtain neg' s2 where sg: "scan_sign (dropWhile isspace s) = (neg', s2)"
    by (cases "scan_sign (dropWhile isspace s)") auto
  obtain pre s3 where px: "(if base = 16 then scan_0x s2 else (False, s2)) = (pre, s3)"
    by (cases "if base = 16 then scan_0x s2 else (False, s2)") auto
  let ?ds = "takeWhile (is_digit_of base) s3"
  from assms sg px have ne: "?ds \<noteq> [] \<or> pre" and r: "r = dropWhile (is_digit_of base) s3"
    by (auto simp: scan_number_def Let_def split: if_splits)
  from scan_sign_split [OF sg] obtain sgn where
    1: "dropWhile isspace s = sgn @ s2" "sgn \<in> {[], ''-'', ''+''}" by blast
  have "\<exists>p. s2 = p @ s3 \<and> (p = [] \<and> \<not> pre \<or> (base = 16 \<and> p \<in> {''0x'', ''0X''}) \<and> pre)"
  proof (cases "base = 16")
    case True
    with px scan_0x_split [of s2 pre s3] show ?thesis by auto
  next
    case False
    with px show ?thesis by auto
  qed
  then obtain p where 2: "s2 = p @ s3"
    "p = [] \<and> \<not> pre \<or> (base = 16 \<and> p \<in> {''0x'', ''0X''}) \<and> pre" by blast
  have 3: "s3 = ?ds @ r" by (simp add: r)
  have "s = takeWhile isspace s @ dropWhile isspace s" by simp
  with 1 2 3 have s: "s = (takeWhile isspace s @ sgn @ p @ ?ds) @ r" by simp
  have "number_token base (takeWhile isspace s @ sgn @ p @ ?ds)"
    unfolding number_token_def
  proof (intro exI conjI)
    show "takeWhile isspace s @ sgn @ p @ ?ds = takeWhile isspace s @ sgn @ p @ ?ds" ..
    show "\<forall>c\<in>set (takeWhile isspace s). isspace c" by (auto dest: set_takeWhileD)
    show "sgn \<in> {[], ''-'', ''+''}" by (rule 1)
    show "p = [] \<or> base = 16 \<and> p \<in> {''0x'', ''0X''}" using 2(2) by blast
    show "\<forall>c\<in>set ?ds. is_digit_of base c" by (auto dest: set_takeWhileD)
    show "?ds \<noteq> [] \<or> p \<noteq> []" using ne 2(2) by auto
  qed
  with s show ?thesis by blast
qed

lemma sscanf_from_begins:
  "nconv F \<le> length (sscanf_from s (F @ G)) \<Longrightarrow> F = [] \<or> is_conv (last F) \<Longrightarrow>
   \<exists>w r. s = w @ r \<and> matches F w"
proof (induction F arbitrary: s)
  case Nil
  have "s = [] @ s \<and> matches [] []" by (simp add: matches_Nil)
  then show ?case by blast
next
  case (Cons d F)
  show ?case
  proof (cases "is_conv d")
    case True
    from Cons.prems(1) True have n: "sscanf_from s (d # F @ G) \<noteq> []"
      by (auto simp: nconv_def)
    then obtain neg m s' where sc: "scan_number (base_of d) s = Some (neg, m, s')"
      using True by (cases "scan_number (base_of d) s") (auto simp: sscanf_from_conv)
    from scan_number_token [OF sc] obtain tok where tok: "s = tok @ s'" "number_token (base_of d) tok"
      by blast
    have l: "nconv F \<le> length (sscanf_from s' (F @ G))"
      using Cons.prems(1) True sc by (simp add: sscanf_from_conv nconv_def)
    have "F = [] \<or> is_conv (last F)" using Cons.prems(2) by (auto split: if_splits)
    from Cons.IH [OF l this] obtain w r where w: "s' = w @ r" "matches F w" by blast
    have "matches (d # F) (tok @ w)" using True tok(2) w(2) by (rule matches_Conv)
    with tok(1) w(1) show ?thesis by (metis append.assoc)
  next
    case False
    then obtain c where d: "d = Lit c" by (cases d) auto
    with Cons.prems(2) have F: "F \<noteq> []" "is_conv (last F)" by (auto split: if_splits)
    then have "last F \<in> set F" by simp
    with F(2) have "0 < nconv F" by (auto simp: nconv_def filter_empty_conv)
    with Cons.prems(1) d have n: "sscanf_from s (Lit c # F @ G) \<noteq> []"
      by (auto simp: nconv_def)
    then obtain s' where s: "s = c # s'"
      by (cases s) (auto split: if_splits)
    have l: "nconv F \<le> length (sscanf_from s' (F @ G))"
      using Cons.prems(1) d s by (simp add: nconv_def)
    from Cons.IH [OF l] F obtain w r where w: "s' = w @ r" "matches F w" by blast
    have "matches (d # F) (c # w)" unfolding d using w(2) by (rule matches_Lit)
    with s w(1) show ?thesis by (metis append_Cons)
  qed
qed

lemma begins_withI:
  assumes "format_of fmt = format_of pre @ G" "pre_n = nconv (format_of pre)"
    "format_of pre = [] \<or> is_conv (last (format_of pre))"
    "int pre_n \<le> fst (sscanf s fmt)"
  shows "begins_with pre s"
proof -
  have "nconv (format_of pre) \<le> length (sscanf_from s (format_of pre @ G))"
    using assms(2,4) sscanf_count_le [of s fmt] by (simp add: assms(1))
  from sscanf_from_begins [OF this assms(3)] show ?thesis
    by (simp add: begins_with_def)
qed

lemma begins_quad:
  "5 \<le> fst (sscanf s ''%hu.%hu.%hu.%hu/%d#%d'') \<Longrightarrow> begins_with ''%hu.%hu.%hu.%hu'' s"
  "4 \<le> fst (sscanf s ''%hu.%hu.%hu.%hu#%d'') \<Longrightarrow> begins_with ''%hu.%hu.%hu.%hu'' s"
proof -
  assume "5 \<le> fst (sscanf s ''%hu.%hu.%hu.%hu/%d#%d'')"
  then show "begins_with ''%hu.%hu.%hu.%hu'' s"
    by (intro begins_withI [of "''%hu.%hu.%hu.%hu/%d#%d''" "''%hu.%hu.%hu.%hu''"
          "[Lit CHR ''/'', Conv_d, Lit CHR ''#'', Conv_d]" 4 s]) (simp_all add: nconv_def)
next
  assume "4 \<le> fst (sscanf s ''%hu.%hu.%hu.%hu#%d'')"
  then show "begins_with ''%hu.%hu.%hu.%hu'' s"
    by (intro begins_withI [of "''%hu.%hu.%hu.%hu#%d''" "''%hu.%hu.%hu.%hu''"
          "[Lit CHR ''#'', Conv_d]" 4 s]) (simp_all add: nconv_def)
qed

lemma begins_hex8:
  "9 \<le> fst (sscanf s ''%hx:%hx:%hx:%hx:%hx:%hx:%hx:%hx/%d#%d'') \<Longrightarrow>
     begins_with ''%hx:%hx:%hx:%hx:%hx:%hx:%hx:%hx'' s"
  "8 \<le> fst (sscanf s ''%hx:%hx:%hx:%hx:%hx:%hx:%hx:%hx#%d'') \<Longrightarrow>
     begins_with ''%hx:%hx:%hx:%hx:%hx:%hx:%hx:%hx'' s"
proof -
  assume "9 \<le> fst (sscanf s ''%hx:%hx:%hx:%hx:%hx:%hx:%hx:%hx/%d#%d'')"
  then show "begins_with ''%hx:%hx:%hx:%hx:%hx:%hx:%hx:%hx'' s"
    by (intro begins_withI [of "''%hx:%hx:%hx:%hx:%hx:%hx:%hx:%hx/%d#%d''"
          "''%hx:%hx:%hx:%hx:%hx:%hx:%hx:%hx''"
          "[Lit CHR ''/'', Conv_d, Lit CHR ''#'', Conv_d]" 8 s]) (simp_all add: nconv_def)
next
  assume "8 \<le> fst (sscanf s ''%hx:%hx:%hx:%hx:%hx:%hx:%hx:%hx#%d'')"
  then show "begins_with ''%hx:%hx:%hx:%hx:%hx:%hx:%hx:%hx'' s"
    by (intro begins_withI [of "''%hx:%hx:%hx:%hx:%hx:%hx:%hx:%hx#%d''"
          "''%hx:%hx:%hx:%hx:%hx:%hx:%hx:%hx''"
          "[Lit CHR ''#'', Conv_d]" 8 s]) (simp_all add: nconv_def)
qed

lemma begins_hex6:
  assumes "6 \<le> fst (sscanf s ''%hx:%hx:%hx:%hx:%hx:%hx#%d'')"
  shows "begins_with ''%hx:%hx:%hx:%hx:%hx:%hx'' s"
  using assms
  by (intro begins_withI [of "''%hx:%hx:%hx:%hx:%hx:%hx#%d''" "''%hx:%hx:%hx:%hx:%hx:%hx''"
        "[Lit CHR ''#'', Conv_d]" 6 s]) (simp_all add: nconv_def)

lemma type_ipv4_octets: "type (snd (ipv4_octets vs i s)) = type s"
  by (induction vs arbitrary: i s) simp_all

lemma type_ipv6_hextets: "type (ipv6_hextets vs i s) = type s"
  by (induction vs arbitrary: i s) simp_all

lemma type_mac_bytes: "type (mac_bytes vs i s) = type s"
  by (induction vs arbitrary: i s) simp_all

text \<open>
  Claim C5, as the code has it. \<open>str2net\<close> succeeds only on a text that begins
  with one of the forms: an IPv4 entry comes from a text that begins with four
  decimal numbers with dots between them, an IPv6 entry from one that begins
  with eight hexadecimal numbers with colons between them, a MAC entry from
  one that begins with six. (A number is what \<open>sscanf\<close> reads as one: white
  space, a sign and, in hexadecimal, \<open>0x\<close> may stand before the digits.) What
  follows the part that matched is not looked at.
\<close>

theorem parse_success_begins_with_form:
  assumes f: "fst (str2net t s)"
  shows "(type (snd (str2net t s)) = SUBNET_IPV4 \<and> begins_with ''%hu.%hu.%hu.%hu'' s) \<or>
         (type (snd (str2net t s)) = SUBNET_IPV6 \<and> begins_with ''%hx:%hx:%hx:%hx:%hx:%hx:%hx:%hx'' s) \<or>
         (type (snd (str2net t s)) = SUBNET_MAC \<and> begins_with ''%hx:%hx:%hx:%hx:%hx:%hx'' s)"
proof -
  note defs = str2net_def split_beta Let_def type_ipv4_octets type_ipv6_hextets type_mac_bytes
  show ?thesis
  proof (cases "5 \<le> fst (sscanf s ''%hu.%hu.%hu.%hu/%d#%d'')")
    case c1: True
    with f have "type (snd (str2net t s)) = SUBNET_IPV4"
      by (auto simp add: defs simp del: ipv4_octets.simps split: if_splits)
    with begins_quad(1) [OF c1] show ?thesis by blast
  next
    case c1: False
    show ?thesis
    proof (cases "9 \<le> fst (sscanf s ''%hx:%hx:%hx:%hx:%hx:%hx:%hx:%hx/%d#%d'')")
      case c2: True
      with f c1 have "type (snd (str2net t s)) = SUBNET_IPV6"
        by (auto simp add: defs simp del: ipv6_hextets.simps split: if_splits)
      with begins_hex8(1) [OF c2] show ?thesis by blast
    next
      case c2: False
      show ?thesis
      proof (cases "4 \<le> fst (sscanf s ''%hu.%hu.%hu.%hu#%d'')")
        case c3: True
        with c1 c2 have "type (snd (str2net t s)) = SUBNET_IPV4"
          by (simp add: defs del: ipv4_octets.simps)
        with begins_quad(2) [OF c3] show ?thesis by blast
      next
        case c3: False
        show ?thesis
        proof (cases "8 \<le> fst (sscanf s ''%hx:%hx:%hx:%hx:%hx:%hx:%hx:%hx#%d'')")
          case c4: True
          with c1 c2 c3 have "type (snd (str2net t s)) = SUBNET_IPV6"
            by (simp add: defs del: ipv6_hextets.simps)
          with begins_hex8(2) [OF c4] show ?thesis by blast
        next
          case c4: False
          show ?thesis
          proof (cases "6 \<le> fst (sscanf s ''%hx:%hx:%hx:%hx:%hx:%hx#%d'')")
            case c5: True
            with c1 c2 c3 c4 have "type (snd (str2net t s)) = SUBNET_MAC"
              by (simp add: defs del: mac_bytes.simps)
            with begins_hex6 [OF c5] show ?thesis by blast
          next
            case c5: False
            with f c1 c2 c3 c4 show ?thesis by (simp add: defs)
          qed
        qed
      qed
    qed
  qed
qed

text \<open>
  Instance of the theorem for C5: \<open>10.0.0.0/24xyz\<close> parses as an IPv4 entry and
  begins with a dotted quad.
\<close>

theorem parse_success_begins_with_form_witness:
  "fst (str2net new_subnet ''10.0.0.0/24xyz'') \<and>
   type (snd (str2net new_subnet ''10.0.0.0/24xyz'')) = SUBNET_IPV4 \<and>
   begins_with ''%hu.%hu.%hu.%hu'' ''10.0.0.0/24xyz''"
proof -
  have e: "str2net new_subnet ''10.0.0.0/24xyz'' =
      (True, new_subnet\<lparr>type := SUBNET_IPV4, ipv4_prefixlength := 24, weight := 10,
                ipv4_address := [10, 0, 0, 0]\<rparr>)"
    by (simp add: str2net_def scan_eval new_subnet_def)
  from parse_success_begins_with_form [of new_subnet "''10.0.0.0/24xyz''"] show ?thesis
    by (simp add: e)
qed

text \<open>
  Claim C5 as stated fails, at its own example: a text with extra characters
  after a well-formed prefix length or weight parses, to the same entry as the
  text without them.
\<close>

theorem parse_accepts_trailing_characters:
  "str2net new_subnet ''10.0.0.0/24xyz'' =
     (True, new_subnet\<lparr>type := SUBNET_IPV4, ipv4_prefixlength := 24, weight := 10,
                ipv4_address := [10, 0, 0, 0]\<rparr>) \<and>
   str2net new_subnet ''10.0.0.0/24'' = str2net new_subnet ''10.0.0.0/24xyz'' \<and>
   str2net new_subnet ''10.0.0.0/24#5 and more'' =
     (True, new_subnet\<lparr>type := SUBNET_IPV4, ipv4_prefixlength := 24, weight := 5,
                ipv4_address := [10, 0, 0, 0]\<rparr>) \<and>
   str2net new_subnet ''0:1:2:3:4:5#10;'' =
     (True, new_subnet\<lparr>type := SUBNET_MAC, weight := 10, mac_address := [0, 1, 2, 3, 4, 5]\<rparr>)"
  by (simp add: str2net_def scan_eval new_subnet_def)

end
